theory Spec2Isabelle
  imports Main
begin

section \<open>Data model of \<open>openmc/deplete/pool.py\<close>\<close>

text \<open>
  The module dispatches one depletion step: for every material it builds a depletion
  matrix from the chain, the material's reaction rates and a fission-yield entry, and
  hands \<open>(matrix, atom vector, dt)\<close> to a caller-supplied integration function through
  an executor pool. Reaction rates \<open>'r\<close>, fission yields \<open>'y\<close>, matrices \<open>'m\<close>, atom
  vectors \<open>'v\<close> and the time step \<open>'t\<close> are opaque to the module, so they are type
  variables. A callable either returns a value (\<open>Inr\<close>) or raises an exception
  (\<open>Inl\<close>). Among the exceptions \<open>StopIteration\<close> is kept apart from all others
  (\<open>Other\<close>): raised inside \<open>next()\<close> of a lazy iterator, it is what the consumer of the
  iterator takes for its end.
\<close>

datatype 'e exn = StopIteration | Other 'e

datatype 'e error =
    ValueError string  \<comment> \<open>raised by \<open>DepletionDispatcher.deplete\<close> itself\<close>
  | Raised "'e exn"    \<comment> \<open>an exception of the matrix builder or of \<open>func\<close>, passed on\<close>

record ('r, 'y, 'm, 'e) chain =
  fission_yields :: "'y list"
  form_matrix :: "'r \<Rightarrow> 'y \<Rightarrow> 'e exn + 'm"

text \<open>The two executor classes a dispatcher can hold in \<open>_pool_class\<close>.\<close>

datatype pool_class = Pool | PoolShim

record dispatcher =
  pool_class :: pool_class

text \<open>
  What a call does besides returning: the calls of the matrix builder, the entry and
  exit of the executor's \<open>with\<close> block, the calls of \<open>func\<close> made in the calling process
  (serial executor) and the hand-over of the task list to the worker processes
  (parallel executor).
\<close>

datatype ('r, 'y, 'm, 'v, 't, 'e) event =
    FormMatrix 'r 'y                          \<comment> \<open>\<open>chain.form_matrix(r, y)\<close>\<close>
  | MatrixFunc "('r, 'y, 'm, 'e) chain" 'r 'y  \<comment> \<open>\<open>matrix_func(chain, r, y)\<close>\<close>
  | Enter pool_class                          \<comment> \<open>\<open>self._pool_class().__enter__()\<close>\<close>
  | Exit pool_class                           \<comment> \<open>\<open>pool.__exit__(...)\<close>\<close>
  | FuncCall 'm 'v 't                         \<comment> \<open>\<open>func(m, v, t)\<close>\<close>
  | Dispatch "('m \<times> 'v \<times> 't) list"           \<comment> \<open>tasks sent to the workers\<close>

section \<open>Iterators\<close>

text \<open>
  \<open>itertools.repeat(a)\<close> never ends; an iterator over a list ends with the list.
  \<open>next_item\<close> is \<open>next()\<close>: \<open>None\<close> stands for \<open>StopIteration\<close>.
\<close>

datatype 'a iterable = Repeat 'a | Items "'a list"

fun next_item :: "'a iterable \<Rightarrow> ('a \<times> 'a iterable) option" where
  "next_item (Repeat a) = Some (a, Repeat a)"
| "next_item (Items []) = None"
| "next_item (Items (a # as)) = Some (a, Items as)"

text \<open>
  One \<open>next()\<close> on a lazy iterator as its consumer sees it: the iterator is exhausted
  (\<open>next()\<close> raised \<open>StopIteration\<close>), \<open>next()\<close> raised another exception, or it yielded.
\<close>

datatype ('a, 's, 'e) step = Exhausted | Raise 'e | Yield 'a 's

text \<open>
  The \<open>map\<close> object of lines 91 to 94. With \<open>matrix_func = None\<close> it is
  \<open>map(chain.form_matrix, rates, fission_yields)\<close>, otherwise
  \<open>map(matrix_func, repeat(chain), rates, fission_yields)\<close>. \<open>map\<close> asks its
  iterables in order and stops at the first one that is exhausted; only then is the
  builder called. The builder runs inside \<open>next()\<close> of the \<open>map\<close> object: a
  \<open>StopIteration\<close> it raises leaves \<open>next()\<close> as the \<open>map\<close> object's own, and the
  consumer sees an exhausted iterator.
\<close>

fun matrices_next ::
  "('r, 'y, 'm, 'e) chain \<Rightarrow> (('r, 'y, 'm, 'e) chain \<Rightarrow> 'r \<Rightarrow> 'y \<Rightarrow> 'e exn + 'm) option \<Rightarrow>
   'r list \<times> 'y iterable \<Rightarrow>
   ('r, 'y, 'm, 'v, 't, 'e) event list \<times> ('m, 'r list \<times> 'y iterable, 'e exn) step" where
  "matrices_next chain matrix_func (rs, fys) =
     (case rs of
        [] \<Rightarrow> ([], Exhausted)
      | r # rs' \<Rightarrow>
          (case next_item fys of
             None \<Rightarrow> ([], Exhausted)
           | Some (y, fys') \<Rightarrow>
               (case matrix_func of
                  None \<Rightarrow>
                    ([FormMatrix r y],
                     case form_matrix chain r y of
                       Inl StopIteration \<Rightarrow> Exhausted
                     | Inl (Other e) \<Rightarrow> Raise (Other e)
                     | Inr m \<Rightarrow> Yield m (rs', fys'))
                | Some mf \<Rightarrow>
                    ([MatrixFunc chain r y],
                     case mf chain r y of
                       Inl StopIteration \<Rightarrow> Exhausted
                     | Inl (Other e) \<Rightarrow> Raise (Other e)
                     | Inr m \<Rightarrow> Yield m (rs', fys')))))"

text \<open>
  \<open>inputs = zip(matrices, x, repeat(dt))\<close> of line 98. \<open>zip\<close> asks \<open>matrices\<close>
  first, so a matrix is built before \<open>x\<close> is found exhausted.
\<close>

fun inputs_next ::
  "('r, 'y, 'm, 'e) chain \<Rightarrow> (('r, 'y, 'm, 'e) chain \<Rightarrow> 'r \<Rightarrow> 'y \<Rightarrow> 'e exn + 'm) option \<Rightarrow> 't \<Rightarrow>
   ('r list \<times> 'y iterable) \<times> 'v list \<Rightarrow>
   ('r, 'y, 'm, 'v, 't, 'e) event list \<times>
   ('m \<times> 'v \<times> 't, ('r list \<times> 'y iterable) \<times> 'v list, 'e exn) step" where
  "inputs_next chain matrix_func dt (ms, xs) =
     (case matrices_next chain matrix_func ms of
        (evs, Exhausted) \<Rightarrow> (evs, Exhausted)
      | (evs, Raise e) \<Rightarrow> (evs, Raise e)
      | (evs, Yield m ms') \<Rightarrow>
          (case xs of
             [] \<Rightarrow> (evs, Exhausted)
           | v # xs' \<Rightarrow> (evs, Yield (m, v, dt) (ms', xs'))))"

section \<open>Executors\<close>

text \<open>
  \<open>PoolShim.starmap\<close> returns the lazy \<open>itertools.starmap(func, inputs)\<close>, and line 99
  drains it with \<open>list\<close>: the next input is built, \<open>func\<close> is called on it, and so on.
  \<open>func\<close> runs inside \<open>next()\<close> of the \<open>starmap\<close> object: a \<open>StopIteration\<close> it raises
  is what \<open>list\<close> takes for the end of the iterator, and the list collected so far is
  returned.
\<close>

function PoolShim_starmap ::
  "('m \<Rightarrow> 'v \<Rightarrow> 't \<Rightarrow> 'e exn + 'v) \<Rightarrow> ('r, 'y, 'm, 'e) chain \<Rightarrow>
   (('r, 'y, 'm, 'e) chain \<Rightarrow> 'r \<Rightarrow> 'y \<Rightarrow> 'e exn + 'm) option \<Rightarrow> 't \<Rightarrow>
   ('r list \<times> 'y iterable) \<times> 'v list \<Rightarrow>
   ('r, 'y, 'm, 'v, 't, 'e) event list \<times> ('e exn + 'v list)" where
  "PoolShim_starmap func chain matrix_func dt st =
     (case inputs_next chain matrix_func dt st of
        (evs, Exhausted) \<Rightarrow> (evs, Inr [])
      | (evs, Raise e) \<Rightarrow> (evs, Inl e)
      | (evs, Yield (m, v, t) st') \<Rightarrow>
          (case func m v t of
             Inl StopIteration \<Rightarrow> (evs @ [FuncCall m v t], Inr [])
           | Inl (Other e) \<Rightarrow> (evs @ [FuncCall m v t], Inl (Other e))
           | Inr v' \<Rightarrow>
               (case PoolShim_starmap func chain matrix_func dt st' of
                  (evs', r) \<Rightarrow> (evs @ FuncCall m v t # evs', map_sum id ((#) v') r))))"
  by pat_completeness auto
termination
  by (relation "measure (\<lambda>(func, chain, matrix_func, dt, st). length (fst (fst st)))")
     (auto split: list.splits option.splits sum.splits step.splits prod.splits exn.splits)

text \<open>
  \<open>list(inputs)\<close>: the whole of \<open>inputs\<close> is drained, in the calling process, so every
  matrix is built before the list exists. It stops at the first builder call that
  raises; if that is a \<open>StopIteration\<close>, the list built so far is the result.
\<close>

function list_inputs ::
  "('r, 'y, 'm, 'e) chain \<Rightarrow> (('r, 'y, 'm, 'e) chain \<Rightarrow> 'r \<Rightarrow> 'y \<Rightarrow> 'e exn + 'm) option \<Rightarrow> 't \<Rightarrow>
   ('r list \<times> 'y iterable) \<times> 'v list \<Rightarrow>
   ('r, 'y, 'm, 'v, 't, 'e) event list \<times> ('e exn + ('m \<times> 'v \<times> 't) list)" where
  "list_inputs chain matrix_func dt st =
     (case inputs_next chain matrix_func dt st of
        (evs, Exhausted) \<Rightarrow> (evs, Inr [])
      | (evs, Raise e) \<Rightarrow> (evs, Inl e)
      | (evs, Yield a st') \<Rightarrow>
          (case list_inputs chain matrix_func dt st' of
             (evs', r) \<Rightarrow> (evs @ evs', map_sum id ((#) a) r)))"
  by pat_completeness auto
termination
  by (relation "measure (\<lambda>(chain, matrix_func, dt, st). length (fst (fst st)))")
     (auto split: list.splits option.splits sum.splits step.splits prod.splits exn.splits)

text \<open>The exceptions and the values in a list of call outcomes, in order.\<close>

primrec raised :: "('e + 'a) list \<Rightarrow> 'e list" where
  "raised [] = []"
| "raised (r # rs) = (case r of Inl e \<Rightarrow> e # raised rs | Inr _ \<Rightarrow> raised rs)"

primrec returned :: "('e + 'a) list \<Rightarrow> 'a list" where
  "returned [] = []"
| "returned (r # rs) = (case r of Inl _ \<Rightarrow> returned rs | Inr a \<Rightarrow> a # returned rs)"

text \<open>
  Modelled from the spec: \<open>multiprocessing.Pool\<close> is imported from the Python library,
  its code is not part of the module. Section 4.3 of the specification gives the
  contract of the parallel executor: the tuples are distributed over worker processes,
  each worker computes one \<open>func\<close> call, the results come back in input order, and if
  any worker fails the whole call fails, whatever the exception. The pool takes the
  task list as a whole, so \<open>inputs\<close> is drained first (\<open>list_inputs\<close>) and then handed
  over.

  When several tasks fail, which failure reaches the caller depends on the order in
  which the workers finish. \<open>first_done k\<close> stands for that order: of \<open>k\<close> failures,
  the one reported is number \<open>first_done k mod k\<close>. The theorems below hold for every
  \<open>first_done\<close>.
\<close>

definition Pool_starmap ::
  "(nat \<Rightarrow> nat) \<Rightarrow> ('m \<Rightarrow> 'v \<Rightarrow> 't \<Rightarrow> 'e exn + 'v) \<Rightarrow> ('r, 'y, 'm, 'e) chain \<Rightarrow>
   (('r, 'y, 'm, 'e) chain \<Rightarrow> 'r \<Rightarrow> 'y \<Rightarrow> 'e exn + 'm) option \<Rightarrow> 't \<Rightarrow>
   ('r list \<times> 'y iterable) \<times> 'v list \<Rightarrow>
   ('r, 'y, 'm, 'v, 't, 'e) event list \<times> ('e exn + 'v list)" where
  "Pool_starmap first_done func chain matrix_func dt st =
     (case list_inputs chain matrix_func dt st of
        (evs, Inl e) \<Rightarrow> (evs, Inl e)
      | (evs, Inr tasks) \<Rightarrow>
          (let outcomes = map (\<lambda>(m, v, t). func m v t) tasks;
               failures = raised outcomes
           in (evs @ [Dispatch tasks],
               if failures = [] then Inr (returned outcomes)
               else Inl (failures ! (first_done (length failures) mod length failures)))))"

section \<open>The dispatcher\<close>

text \<open>\<open>DepletionDispatcher.__init__\<close>, line 50.\<close>

definition DepletionDispatcher_init :: "bool \<Rightarrow> dispatcher" where
  "DepletionDispatcher_init use_multiprocessing =
     \<lparr>pool_class = (if use_multiprocessing then Pool else PoolShim)\<rparr>"

text \<open>Python's \<open>str.format\<close> of a length: its decimal digits.\<close>

fun str_nat :: "nat \<Rightarrow> string" where
  "str_nat n =
     (if n < 10 then [''0123456789'' ! n]
      else str_nat (n div 10) @ [''0123456789'' ! (n mod 10)])"

declare str_nat.simps [simp del]

definition mismatch_message :: "nat \<Rightarrow> nat \<Rightarrow> string" where
  "mismatch_message n_yields n_x =
     ''Number of material fission yield distributions '' @ str_nat n_yields @
     '' is not equal to the number of compositions '' @ str_nat n_x"

text \<open>
  Lines 97 to 99: the \<open>with\<close> block. The executor is entered, the results are
  collected, and \<open>__exit__\<close> runs on the way out, whether the body returned or raised.
  \<open>PoolShim.__exit__\<close> and \<open>Pool.__exit__\<close> both return \<open>None\<close>, so an exception of
  the body leaves the block after the exit. Creating the executor is taken to succeed.
\<close>

definition with_pool ::
  "(nat \<Rightarrow> nat) \<Rightarrow> pool_class \<Rightarrow> ('m \<Rightarrow> 'v \<Rightarrow> 't \<Rightarrow> 'e exn + 'v) \<Rightarrow> ('r, 'y, 'm, 'e) chain \<Rightarrow>
   (('r, 'y, 'm, 'e) chain \<Rightarrow> 'r \<Rightarrow> 'y \<Rightarrow> 'e exn + 'm) option \<Rightarrow> 't \<Rightarrow>
   ('r list \<times> 'y iterable) \<times> 'v list \<Rightarrow>
   ('r, 'y, 'm, 'v, 't, 'e) event list \<times> ('e error + 'v list)" where
  "with_pool first_done pc func chain matrix_func dt st =
     (case (case pc of
              PoolShim \<Rightarrow> PoolShim_starmap func chain matrix_func dt st
            | Pool \<Rightarrow> Pool_starmap first_done func chain matrix_func dt st) of
        (evs, x_result) \<Rightarrow> (Enter pc # evs @ [Exit pc], map_sum Raised id x_result))"

text \<open>
  \<open>DepletionDispatcher.deplete\<close>, lines 52 to 101. The method is a state transformer
  on \<open>self\<close>: it returns the dispatcher as the call leaves it, the events of the call,
  and the list \<open>x_result\<close> or the exception that leaves the method. Lines 91 to 94
  only create the lazy \<open>map\<close> object; the builder runs when the executor asks for the
  inputs, inside the \<open>with\<close> block.
\<close>

definition DepletionDispatcher_deplete ::
  "(nat \<Rightarrow> nat) \<Rightarrow> dispatcher \<Rightarrow> ('m \<Rightarrow> 'v \<Rightarrow> 't \<Rightarrow> 'e exn + 'v) \<Rightarrow> ('r, 'y, 'm, 'e) chain \<Rightarrow>
   'v list \<Rightarrow> 'r list \<Rightarrow> 't \<Rightarrow> (('r, 'y, 'm, 'e) chain \<Rightarrow> 'r \<Rightarrow> 'y \<Rightarrow> 'e exn + 'm) option \<Rightarrow>
   dispatcher \<times> ('r, 'y, 'm, 'v, 't, 'e) event list \<times> ('e error + 'v list)" where
  "DepletionDispatcher_deplete first_done self func chain x rates dt matrix_func =
     (let fys = fission_yields chain in
      if length fys = 1 then
        (self, with_pool first_done (pool_class self) func chain matrix_func dt
                 ((rates, Repeat (fys ! 0)), x))
      else if length fys \<noteq> length x then
        (self, [], Inl (ValueError (mismatch_message (length fys) (length x))))
      else
        (self, with_pool first_done (pool_class self) func chain matrix_func dt
                 ((rates, Items fys), x)))"

text \<open>
  The one-shot \<open>deplete\<close>, lines 104 to 140. \<open>DepletionDispatcher(Pool)\<close> passes the
  class \<open>Pool\<close> as \<open>use_multiprocessing\<close>; a class object is true. The call passes
  \<open>matrix_func=None\<close>, whatever the caller gave.
\<close>

definition deplete ::
  "(nat \<Rightarrow> nat) \<Rightarrow> ('m \<Rightarrow> 'v \<Rightarrow> 't \<Rightarrow> 'e exn + 'v) \<Rightarrow> ('r, 'y, 'm, 'e) chain \<Rightarrow>
   'v list \<Rightarrow> 'r list \<Rightarrow> 't \<Rightarrow> (('r, 'y, 'm, 'e) chain \<Rightarrow> 'r \<Rightarrow> 'y \<Rightarrow> 'e exn + 'm) option \<Rightarrow>
   ('r, 'y, 'm, 'v, 't, 'e) event list \<times> ('e error + 'v list)" where
  "deplete first_done func chain x rates dt matrix_func =
     snd (DepletionDispatcher_deplete first_done (DepletionDispatcher_init True)
            func chain x rates dt None)"

section \<open>Observations on a call\<close>

text \<open>
  The functions of this section are not in the module: they read a call's events and
  result, so that the properties below can be stated.

  \<open>builder\<close> is the matrix builder a call uses, \<open>chain.form_matrix\<close> or the caller's
  \<open>matrix_func\<close> applied to the chain, and \<open>builder_call\<close> is the event its call leaves.
\<close>

definition builder ::
  "('r, 'y, 'm, 'e) chain \<Rightarrow> (('r, 'y, 'm, 'e) chain \<Rightarrow> 'r \<Rightarrow> 'y \<Rightarrow> 'e exn + 'm) option \<Rightarrow>
   'r \<Rightarrow> 'y \<Rightarrow> 'e exn + 'm" where
  "builder chain matrix_func r y =
     (case matrix_func of None \<Rightarrow> form_matrix chain r y | Some mf \<Rightarrow> mf chain r y)"

definition builder_call ::
  "('r, 'y, 'm, 'e) chain \<Rightarrow> (('r, 'y, 'm, 'e) chain \<Rightarrow> 'r \<Rightarrow> 'y \<Rightarrow> 'e exn + 'm) option \<Rightarrow>
   'r \<Rightarrow> 'y \<Rightarrow> ('r, 'y, 'm, 'v, 't, 'e) event" where
  "builder_call chain matrix_func r y =
     (case matrix_func of None \<Rightarrow> FormMatrix r y | Some mf \<Rightarrow> MatrixFunc chain r y)"

fun is_builder_call :: "('r, 'y, 'm, 'v, 't, 'e) event \<Rightarrow> bool" where
  "is_builder_call (FormMatrix r y) = True"
| "is_builder_call (MatrixFunc c r y) = True"
| "is_builder_call _ = False"

text \<open>The calls of the matrix builder during a call, in the order they were made.\<close>

definition builder_calls ::
  "('r, 'y, 'm, 'v, 't, 'e) event list \<Rightarrow> ('r, 'y, 'm, 'v, 't, 'e) event list" where
  "builder_calls evs = filter is_builder_call evs"

text \<open>
  The \<open>k\<close>-th value an iterator yields, and how many of the first \<open>n\<close> values it can
  yield.
\<close>

fun item :: "'a iterable \<Rightarrow> nat \<Rightarrow> 'a" where
  "item (Repeat a) k = a"
| "item (Items ys) k = ys ! k"

fun available :: "'a iterable \<Rightarrow> nat \<Rightarrow> nat" where
  "available (Repeat a) n = n"
| "available (Items ys) n = min n (length ys)"

text \<open>
  The exceptions raised by the calls an event records. A \<open>Dispatch\<close> records one
  \<open>func\<close> call for each task.
\<close>

fun raised_by ::
  "('m \<Rightarrow> 'v \<Rightarrow> 't \<Rightarrow> 'e exn + 'v) \<Rightarrow> ('r, 'y, 'm, 'e) chain \<Rightarrow>
   (('r, 'y, 'm, 'e) chain \<Rightarrow> 'r \<Rightarrow> 'y \<Rightarrow> 'e exn + 'm) option \<Rightarrow>
   ('r, 'y, 'm, 'v, 't, 'e) event \<Rightarrow> 'e exn list" where
  "raised_by func chain matrix_func (FormMatrix r y) = raised [form_matrix chain r y]"
| "raised_by func chain matrix_func (MatrixFunc c r y) =
     (case matrix_func of None \<Rightarrow> [] | Some mf \<Rightarrow> raised [mf c r y])"
| "raised_by func chain matrix_func (FuncCall m v t) = raised [func m v t]"
| "raised_by func chain matrix_func (Dispatch tasks) =
     raised (map (\<lambda>(m, v, t). func m v t) tasks)"
| "raised_by func chain matrix_func (Enter pc) = []"
| "raised_by func chain matrix_func (Exit pc) = []"

text \<open>The exceptions other than \<open>StopIteration\<close> in a list of exceptions.\<close>

primrec others :: "'e exn list \<Rightarrow> 'e exn list" where
  "others [] = []"
| "others (e # es) = (case e of StopIteration \<Rightarrow> others es | Other a \<Rightarrow> Other a # others es)"

text \<open>
  The exceptions of an event's calls that are not taken for the end of an iterator: all
  but \<open>StopIteration\<close> for a call made inside the lazy pipeline, all for the tasks
  handed to the workers.
\<close>

fun propagating ::
  "('m \<Rightarrow> 'v \<Rightarrow> 't \<Rightarrow> 'e exn + 'v) \<Rightarrow> ('r, 'y, 'm, 'e) chain \<Rightarrow>
   (('r, 'y, 'm, 'e) chain \<Rightarrow> 'r \<Rightarrow> 'y \<Rightarrow> 'e exn + 'm) option \<Rightarrow>
   ('r, 'y, 'm, 'v, 't, 'e) event \<Rightarrow> 'e exn list" where
  "propagating func chain matrix_func (Dispatch tasks) =
     raised_by func chain matrix_func (Dispatch tasks)"
| "propagating func chain matrix_func ev = others (raised_by func chain matrix_func ev)"

text \<open>
  The fission-yield entry of position \<open>i\<close>: the only entry of a one-entry table, entry
  \<open>i\<close> of any other.
\<close>

definition yield_for :: "('r, 'y, 'm, 'e) chain \<Rightarrow> nat \<Rightarrow> 'y" where
  "yield_for chain i =
     (if length (fission_yields chain) = 1 then fission_yields chain ! 0
      else fission_yields chain ! i)"

text \<open>The list a call returns, \<open>None\<close> when it raises.\<close>

definition x_result :: "'e error + 'v list \<Rightarrow> 'v list option" where
  "x_result r = (case r of Inl _ \<Rightarrow> None | Inr res \<Rightarrow> Some res)"

text \<open>The executor classes a call has instantiated and entered.\<close>

fun entered :: "('r, 'y, 'm, 'v, 't, 'e) event \<Rightarrow> pool_class list" where
  "entered (Enter pc) = [pc]"
| "entered _ = []"

definition pools_entered :: "('r, 'y, 'm, 'v, 't, 'e) event list \<Rightarrow> pool_class list" where
  "pools_entered evs = concat (map entered evs)"

section \<open>Example inputs\<close>

text \<open>
  Small inputs on which the properties below are exercised: a chain with a one-entry
  and one with a three-entry fission-yield table, whose \<open>form_matrix\<close> adds its
  arguments, and one whose \<open>form_matrix\<close> raises \<open>StopIteration\<close> on the reaction rates
  2; a \<open>func\<close> that adds the matrix to the atom vector, one that raises on a
  given atom vector and one that raises \<open>StopIteration\<close> there; a \<open>matrix_func\<close> that
  returns the matrix 100.
\<close>

definition chain_one :: "(nat, nat, nat, string) chain" where
  "chain_one = \<lparr>fission_yields = [4], form_matrix = (\<lambda>r y. Inr (r + y))\<rparr>"

definition chain_three :: "(nat, nat, nat, string) chain" where
  "chain_three = \<lparr>fission_yields = [4, 5, 6], form_matrix = (\<lambda>r y. Inr (r + y))\<rparr>"

definition chain_stops :: "(nat, nat, nat, string) chain" where
  "chain_stops =
     \<lparr>fission_yields = [4],
      form_matrix = (\<lambda>r y. if r = 2 then Inl StopIteration else Inr (r + y))\<rparr>"

definition add_matrix :: "nat \<Rightarrow> nat \<Rightarrow> nat \<Rightarrow> string exn + nat" where
  "add_matrix m v t = Inr (m + v)"

definition fails_at :: "nat \<Rightarrow> nat \<Rightarrow> nat \<Rightarrow> nat \<Rightarrow> string exn + nat" where
  "fails_at bad m v t = (if v = bad then Inl (Other ''boom'') else Inr (m + v))"

definition stops_at :: "nat \<Rightarrow> nat \<Rightarrow> nat \<Rightarrow> nat \<Rightarrow> string exn + nat" where
  "stops_at bad m v t = (if v = bad then Inl StopIteration else Inr (m + v))"

definition fixed_matrix :: "(nat, nat, nat, string) chain \<Rightarrow> nat \<Rightarrow> nat \<Rightarrow> string exn + nat" where
  "fixed_matrix c r y = Inr 100"

section \<open>Unfolding the executors\<close>

lemma is_builder_call_builder_call [simp]: "is_builder_call (builder_call chain mf r y)"
  by (simp add: builder_call_def split: option.splits)

lemma builder_calls_simps [simp]:
  "builder_calls [] = []"
  "builder_calls (builder_call chain mf r y # evs) = builder_call chain mf r y # builder_calls evs"
  "builder_calls (FuncCall m v t # evs) = builder_calls evs"
  "builder_calls (Dispatch ts # evs) = builder_calls evs"
  "builder_calls (Enter pc # evs) = builder_calls evs"
  "builder_calls (Exit pc # evs) = builder_calls evs"
  "builder_calls (evs @ evs') = builder_calls evs @ builder_calls evs'"
  by (simp_all add: builder_calls_def)

lemma raised_by_builder_call [simp]:
  "raised_by func chain mf (builder_call chain mf r y) = raised [builder chain mf r y]"
  by (cases mf) (simp_all add: builder_call_def builder_def)

lemma propagating_builder_call [simp]:
  "propagating func chain mf (builder_call chain mf r y) = others (raised [builder chain mf r y])"
  by (cases mf) (simp_all add: builder_call_def builder_def)

lemma entered_builder_call [simp]: "entered (builder_call chain mf r y) = []"
  by (cases mf) (simp_all add: builder_call_def)

lemma pools_entered_simps [simp]:
  "pools_entered [] = []"
  "pools_entered (ev # evs) = entered ev @ pools_entered evs"
  "pools_entered (evs @ evs') = pools_entered evs @ pools_entered evs'"
  by (simp_all add: pools_entered_def)

declare PoolShim_starmap.simps [simp del] list_inputs.simps [simp del]

lemma inputs_next_Nil: "inputs_next chain mf dt (([], fys), xs) = ([], Exhausted)"
  by simp

lemma inputs_next_Cons:
  "inputs_next chain mf dt ((r # rs, fys), xs) =
     (case next_item fys of
        None \<Rightarrow> ([], Exhausted)
      | Some (y, fys') \<Rightarrow>
          ([builder_call chain mf r y],
           case builder chain mf r y of
             Inl StopIteration \<Rightarrow> Exhausted
           | Inl (Other e) \<Rightarrow> Raise (Other e)
           | Inr m \<Rightarrow> (case xs of [] \<Rightarrow> Exhausted | v # xs' \<Rightarrow> Yield (m, v, dt) ((rs, fys'), xs'))))"
  by (simp add: builder_def builder_call_def
      split: option.splits sum.splits list.splits exn.splits)

declare inputs_next.simps [simp del] matrices_next.simps [simp del]

text \<open>The serial executor, one equation for each way a step can go.\<close>

lemma PoolShim_starmap_Nil: "PoolShim_starmap func chain mf dt (([], fys), xs) = ([], Inr [])"
  by (subst PoolShim_starmap.simps) (simp add: inputs_next_Nil)

lemma PoolShim_starmap_NoYield:
  "next_item fys = None \<Longrightarrow>
   PoolShim_starmap func chain mf dt ((r # rs, fys), xs) = ([], Inr [])"
  by (subst PoolShim_starmap.simps) (simp add: inputs_next_Cons)

lemma PoolShim_starmap_BuildStop:
  "next_item fys = Some (y, fys') \<Longrightarrow> builder chain mf r y = Inl StopIteration \<Longrightarrow>
   PoolShim_starmap func chain mf dt ((r # rs, fys), xs) = ([builder_call chain mf r y], Inr [])"
  by (subst PoolShim_starmap.simps) (simp add: inputs_next_Cons)

lemma PoolShim_starmap_BuildFail:
  "next_item fys = Some (y, fys') \<Longrightarrow> builder chain mf r y = Inl (Other e) \<Longrightarrow>
   PoolShim_starmap func chain mf dt ((r # rs, fys), xs) =
     ([builder_call chain mf r y], Inl (Other e))"
  by (subst PoolShim_starmap.simps) (simp add: inputs_next_Cons)

lemma PoolShim_starmap_NoX:
  "next_item fys = Some (y, fys') \<Longrightarrow> builder chain mf r y = Inr m \<Longrightarrow>
   PoolShim_starmap func chain mf dt ((r # rs, fys), []) = ([builder_call chain mf r y], Inr [])"
  by (subst PoolShim_starmap.simps) (simp add: inputs_next_Cons)

lemma PoolShim_starmap_FuncStop:
  "next_item fys = Some (y, fys') \<Longrightarrow> builder chain mf r y = Inr m \<Longrightarrow>
   func m v dt = Inl StopIteration \<Longrightarrow>
   PoolShim_starmap func chain mf dt ((r # rs, fys), v # xs) =
     ([builder_call chain mf r y, FuncCall m v dt], Inr [])"
  by (subst PoolShim_starmap.simps) (simp add: inputs_next_Cons)

lemma PoolShim_starmap_FuncFail:
  "next_item fys = Some (y, fys') \<Longrightarrow> builder chain mf r y = Inr m \<Longrightarrow>
   func m v dt = Inl (Other e) \<Longrightarrow>
   PoolShim_starmap func chain mf dt ((r # rs, fys), v # xs) =
     ([builder_call chain mf r y, FuncCall m v dt], Inl (Other e))"
  by (subst PoolShim_starmap.simps) (simp add: inputs_next_Cons)

lemma PoolShim_starmap_Step:
  "next_item fys = Some (y, fys') \<Longrightarrow> builder chain mf r y = Inr m \<Longrightarrow>
   func m v dt = Inr v' \<Longrightarrow>
   PoolShim_starmap func chain mf dt ((r # rs, fys), v # xs) =
     (builder_call chain mf r y # FuncCall m v dt #
        fst (PoolShim_starmap func chain mf dt ((rs, fys'), xs)),
      map_sum id ((#) v') (snd (PoolShim_starmap func chain mf dt ((rs, fys'), xs))))"
  by (subst PoolShim_starmap.simps) (simp add: inputs_next_Cons split: prod.splits)

text \<open>Draining the inputs, likewise.\<close>

lemma list_inputs_Nil: "list_inputs chain mf dt (([], fys), xs) = ([], Inr [])"
  by (subst list_inputs.simps) (simp add: inputs_next_Nil)

lemma list_inputs_NoYield:
  "next_item fys = None \<Longrightarrow> list_inputs chain mf dt ((r # rs, fys), xs) = ([], Inr [])"
  by (subst list_inputs.simps) (simp add: inputs_next_Cons)

lemma list_inputs_BuildStop:
  "next_item fys = Some (y, fys') \<Longrightarrow> builder chain mf r y = Inl StopIteration \<Longrightarrow>
   list_inputs chain mf dt ((r # rs, fys), xs) = ([builder_call chain mf r y], Inr [])"
  by (subst list_inputs.simps) (simp add: inputs_next_Cons)

lemma list_inputs_BuildFail:
  "next_item fys = Some (y, fys') \<Longrightarrow> builder chain mf r y = Inl (Other e) \<Longrightarrow>
   list_inputs chain mf dt ((r # rs, fys), xs) = ([builder_call chain mf r y], Inl (Other e))"
  by (subst list_inputs.simps) (simp add: inputs_next_Cons)

lemma list_inputs_NoX:
  "next_item fys = Some (y, fys') \<Longrightarrow> builder chain mf r y = Inr m \<Longrightarrow>
   list_inputs chain mf dt ((r # rs, fys), []) = ([builder_call chain mf r y], Inr [])"
  by (subst list_inputs.simps) (simp add: inputs_next_Cons)

lemma list_inputs_Step:
  "next_item fys = Some (y, fys') \<Longrightarrow> builder chain mf r y = Inr m \<Longrightarrow>
   list_inputs chain mf dt ((r # rs, fys), v # xs) =
     (builder_call chain mf r y # fst (list_inputs chain mf dt ((rs, fys'), xs)),
      map_sum id ((#) (m, v, dt)) (snd (list_inputs chain mf dt ((rs, fys'), xs))))"
  by (subst list_inputs.simps) (simp add: inputs_next_Cons split: prod.splits)

lemma next_item_None: "next_item fys = None \<Longrightarrow> available fys n = 0"
  by (cases fys rule: next_item.cases) auto

lemma next_item_Some:
  assumes "next_item fys = Some (y, fys')"
  shows "y = item fys 0" and "item fys' k = item fys (Suc k)"
    and "available fys (Suc n) = Suc (available fys' n)"
proof -
  from assms show "y = item fys 0" by (cases fys rule: next_item.cases) auto
  from assms show "item fys' k = item fys (Suc k)" by (cases fys rule: next_item.cases) auto
  from assms show "available fys (Suc n) = Suc (available fys' n)"
    by (cases fys rule: next_item.cases) auto
qed

lemma available_0 [simp]: "available fys 0 = 0"
  by (cases fys) simp_all

text \<open>Induction over the run of the lazy pipeline.\<close>

lemma pipeline_induct [case_names Nil NoYield BuildStop BuildFail NoX Step]:
  assumes "\<And>fys xs. P [] fys xs"
    and "\<And>r rs fys xs. next_item fys = None \<Longrightarrow> P (r # rs) fys xs"
    and "\<And>r rs fys xs y fys'.
           next_item fys = Some (y, fys') \<Longrightarrow> builder chain mf r y = Inl StopIteration \<Longrightarrow>
           P (r # rs) fys xs"
    and "\<And>r rs fys xs y fys' e.
           next_item fys = Some (y, fys') \<Longrightarrow> builder chain mf r y = Inl (Other e) \<Longrightarrow>
           P (r # rs) fys xs"
    and "\<And>r rs fys y fys' m.
           next_item fys = Some (y, fys') \<Longrightarrow> builder chain mf r y = Inr m \<Longrightarrow> P (r # rs) fys []"
    and "\<And>r rs fys y fys' m v xs.
           next_item fys = Some (y, fys') \<Longrightarrow> builder chain mf r y = Inr m \<Longrightarrow>
           P rs fys' xs \<Longrightarrow> P (r # rs) fys (v # xs)"
  shows "P rs fys xs"
proof -
  have "\<forall>fys xs. P rs fys xs"
  proof (induction rs)
    case Nil
    show ?case by (simp add: assms(1))
  next
    case (Cons r rs)
    show ?case
    proof (intro allI)
      fix fys xs
      show "P (r # rs) fys xs"
      proof (cases "next_item fys")
        case None
        then show ?thesis by (rule assms(2))
      next
        case (Some p)
        obtain y fys' where p: "next_item fys = Some (y, fys')" using Some by (cases p) simp
        show ?thesis
        proof (cases "builder chain mf r y")
          case (Inl e)
          show ?thesis
          proof (cases e)
            case StopIteration
            with p Inl show ?thesis by (simp add: assms(3))
          next
            case (Other a)
            with Inl have "builder chain mf r y = Inl (Other a)" by simp
            with p show ?thesis by (rule assms(4))
          qed
        next
          case (Inr m)
          show ?thesis
          proof (cases xs)
            case Nil
            with assms(5) [OF p Inr] show ?thesis by simp
          next
            case (Cons v xs')
            from Cons.IH have "P rs fys' xs'" by simp
            with assms(6) [OF p Inr] Cons show ?thesis by simp
          qed
        qed
      qed
    qed
  qed
  then show ?thesis by simp
qed

text \<open>
  The same for the serial executor, whose steps also depend on what \<open>func\<close> does.
\<close>

lemma serial_induct
  [case_names Nil NoYield BuildStop BuildFail NoX FuncStop FuncFail Step]:
  assumes "\<And>fys xs. P [] fys xs"
    and "\<And>r rs fys xs. next_item fys = None \<Longrightarrow> P (r # rs) fys xs"
    and "\<And>r rs fys xs y fys'.
           next_item fys = Some (y, fys') \<Longrightarrow> builder chain mf r y = Inl StopIteration \<Longrightarrow>
           P (r # rs) fys xs"
    and "\<And>r rs fys xs y fys' e.
           next_item fys = Some (y, fys') \<Longrightarrow> builder chain mf r y = Inl (Other e) \<Longrightarrow>
           P (r # rs) fys xs"
    and "\<And>r rs fys y fys' m.
           next_item fys = Some (y, fys') \<Longrightarrow> builder chain mf r y = Inr m \<Longrightarrow> P (r # rs) fys []"
    and "\<And>r rs fys y fys' m v xs.
           next_item fys = Some (y, fys') \<Longrightarrow> builder chain mf r y = Inr m \<Longrightarrow>
           func m v dt = Inl StopIteration \<Longrightarrow> P (r # rs) fys (v # xs)"
    and "\<And>r rs fys y fys' m v xs e.
           next_item fys = Some (y, fys') \<Longrightarrow> builder chain mf r y = Inr m \<Longrightarrow>
           func m v dt = Inl (Other e) \<Longrightarrow> P (r # rs) fys (v # xs)"
    and "\<And>r rs fys y fys' m v xs v'.
           next_item fys = Some (y, fys') \<Longrightarrow> builder chain mf r y = Inr m \<Longrightarrow>
           func m v dt = Inr v' \<Longrightarrow> P rs fys' xs \<Longrightarrow> P (r # rs) fys (v # xs)"
  shows "P rs fys xs"
proof (induction rs fys xs rule: pipeline_induct [where chain = chain and mf = mf])
  case (Step r rs fys y fys' m v xs)
  show ?case
  proof (cases "func m v dt")
    case (Inl e)
    show ?thesis
    proof (cases e)
      case StopIteration
      with Inl Step.hyps show ?thesis by (simp add: assms(6))
    next
      case (Other a)
      with Inl have "func m v dt = Inl (Other a)" by simp
      with Step.hyps show ?thesis by (rule assms(7))
    qed
  next
    case (Inr v')
    from assms(8) [OF Step.hyps Inr Step.IH] show ?thesis .
  qed
qed (fact assms(1-5))+

lemmas PoolShim_starmap_eqs =
  PoolShim_starmap_Nil PoolShim_starmap_NoYield PoolShim_starmap_BuildStop
  PoolShim_starmap_BuildFail PoolShim_starmap_NoX PoolShim_starmap_FuncStop
  PoolShim_starmap_FuncFail PoolShim_starmap_Step

lemmas list_inputs_eqs =
  list_inputs_Nil list_inputs_NoYield list_inputs_BuildStop list_inputs_BuildFail
  list_inputs_NoX list_inputs_Step

section \<open>What the executors do\<close>

lemma PoolShim_builder_calls:
  "k < length (builder_calls (fst (PoolShim_starmap func chain mf dt ((rs, fys), xs)))) \<Longrightarrow>
   builder_calls (fst (PoolShim_starmap func chain mf dt ((rs, fys), xs))) ! k =
     builder_call chain mf (rs ! k) (item fys k) \<and> k < available fys (length rs)"
proof (induction rs fys xs arbitrary: k
    rule: serial_induct [where chain = chain and mf = mf and func = func and dt = dt])
  case (Step r rs fys y fys' m v xs v')
  note ni = next_item_Some [OF Step.hyps(1)]
  show ?case
  proof (cases k)
    case 0
    with Step.hyps show ?thesis
      by (simp add: PoolShim_starmap_Step ni(1) [symmetric] ni(3))
  next
    case (Suc j)
    with Step.hyps Step.prems Step.IH [of j] show ?thesis
      by (simp add: PoolShim_starmap_Step ni(2) [symmetric] ni(3))
  qed
qed (simp_all add: PoolShim_starmap_eqs next_item_Some(1) [symmetric] next_item_Some(3))

lemma list_inputs_builder_calls:
  "k < length (builder_calls (fst (list_inputs chain mf dt ((rs, fys), xs)))) \<Longrightarrow>
   builder_calls (fst (list_inputs chain mf dt ((rs, fys), xs))) ! k =
     builder_call chain mf (rs ! k) (item fys k) \<and> k < available fys (length rs)"
proof (induction rs fys xs arbitrary: k rule: pipeline_induct [where chain = chain and mf = mf])
  case (Step r rs fys y fys' m v xs)
  note ni = next_item_Some [OF Step.hyps(1)]
  show ?case
  proof (cases k)
    case 0
    with Step.hyps show ?thesis
      by (simp add: list_inputs_Step ni(1) [symmetric] ni(3))
  next
    case (Suc j)
    with Step.hyps Step.prems Step.IH [of j] show ?thesis
      by (simp add: list_inputs_Step ni(2) [symmetric] ni(3))
  qed
qed (simp_all add: list_inputs_eqs next_item_Some(1) [symmetric] next_item_Some(3))

text \<open>A returned list: its length and its elements.\<close>

lemma PoolShim_success:
  "snd (PoolShim_starmap func chain mf dt ((rs, fys), xs)) = Inr res \<Longrightarrow>
   length res \<le> min (available fys (length rs)) (length xs) \<and>
   (\<forall>i<length res. \<exists>m. builder chain mf (rs ! i) (item fys i) = Inr m \<and>
      func m (xs ! i) dt = Inr (res ! i))"
proof (induction rs fys xs arbitrary: res
    rule: serial_induct [where chain = chain and mf = mf and func = func and dt = dt])
  case (Step r rs fys y fys' m v xs v')
  note ni = next_item_Some [OF Step.hyps(1)]
  let ?S = "snd (PoolShim_starmap func chain mf dt ((rs, fys'), xs))"
  from Step.prems Step.hyps obtain res' where r: "?S = Inr res'" "res = v' # res'"
    by (cases ?S) (auto simp: PoolShim_starmap_Step)
  from Step.IH [OF r(1)] have
    len: "length res' \<le> min (available fys' (length rs)) (length xs)" and
    ix: "\<And>i. i < length res' \<Longrightarrow>
           \<exists>m. builder chain mf (rs ! i) (item fys' i) = Inr m \<and>
               func m (xs ! i) dt = Inr (res' ! i)"
    by simp_all
  have "length res \<le> min (available fys (length (r # rs))) (length (v # xs))"
    using len r(2) by (simp add: ni(3))
  moreover have "\<exists>m. builder chain mf ((r # rs) ! i) (item fys i) = Inr m \<and>
      func m ((v # xs) ! i) dt = Inr (res ! i)" if "i < length res" for i
  proof (cases i)
    case 0
    then show ?thesis using Step.hyps r(2) ni(1) by simp
  next
    case (Suc j)
    then show ?thesis using ix [of j] that r(2) ni(2) [of j] by simp
  qed
  ultimately show ?case by blast
qed (simp_all add: PoolShim_starmap_eqs)

lemma list_inputs_success:
  "snd (list_inputs chain mf dt ((rs, fys), xs)) = Inr tasks \<Longrightarrow>
   length tasks \<le> min (available fys (length rs)) (length xs) \<and>
   (\<forall>i<length tasks. \<exists>m. builder chain mf (rs ! i) (item fys i) = Inr m \<and>
      tasks ! i = (m, xs ! i, dt))"
proof (induction rs fys xs arbitrary: tasks rule: pipeline_induct [where chain = chain and mf = mf])
  case (Step r rs fys y fys' m v xs)
  note ni = next_item_Some [OF Step.hyps(1)]
  let ?L = "snd (list_inputs chain mf dt ((rs, fys'), xs))"
  from Step.prems Step.hyps obtain tasks' where t: "?L = Inr tasks'" "tasks = (m, v, dt) # tasks'"
    by (cases ?L) (auto simp: list_inputs_Step)
  from Step.IH [OF t(1)] have
    len: "length tasks' \<le> min (available fys' (length rs)) (length xs)" and
    ix: "\<And>i. i < length tasks' \<Longrightarrow>
           \<exists>m. builder chain mf (rs ! i) (item fys' i) = Inr m \<and> tasks' ! i = (m, xs ! i, dt)"
    by simp_all
  have "length tasks \<le> min (available fys (length (r # rs))) (length (v # xs))"
    using len t(2) by (simp add: ni(3))
  moreover have "\<exists>m. builder chain mf ((r # rs) ! i) (item fys i) = Inr m \<and>
      tasks ! i = (m, (v # xs) ! i, dt)" if "i < length tasks" for i
  proof (cases i)
    case 0
    then show ?thesis using Step.hyps(2) t(2) ni(1) by simp
  next
    case (Suc j)
    then show ?thesis using ix [of j] that t(2) ni(2) [of j] by simp
  qed
  ultimately show ?case by blast
qed (simp_all add: list_inputs_eqs)

text \<open>A run in which no call raises: it returns, and nothing is cut short.\<close>

lemma PoolShim_unraised:
  "\<forall>ev\<in>set (fst (PoolShim_starmap func chain mf dt ((rs, fys), xs))).
     raised_by func chain mf ev = [] \<Longrightarrow>
   \<exists>res. snd (PoolShim_starmap func chain mf dt ((rs, fys), xs)) = Inr res \<and>
     length res = min (available fys (length rs)) (length xs) \<and>
     length (builder_calls (fst (PoolShim_starmap func chain mf dt ((rs, fys), xs)))) =
       min (available fys (length rs)) (Suc (length xs))"
proof (induction rs fys xs
    rule: serial_induct [where chain = chain and mf = mf and func = func and dt = dt])
  case (Step r rs fys y fys' m v xs v')
  note ni = next_item_Some [OF Step.hyps(1)]
  from Step.prems Step.hyps have
    "\<forall>ev\<in>set (fst (PoolShim_starmap func chain mf dt ((rs, fys'), xs))).
       raised_by func chain mf ev = []"
    by (simp add: PoolShim_starmap_Step)
  from Step.IH [OF this] obtain res where
    "snd (PoolShim_starmap func chain mf dt ((rs, fys'), xs)) = Inr res"
    "length res = min (available fys' (length rs)) (length xs)"
    "length (builder_calls (fst (PoolShim_starmap func chain mf dt ((rs, fys'), xs)))) =
       min (available fys' (length rs)) (Suc (length xs))" by blast
  with Step.hyps show ?case by (simp add: PoolShim_starmap_Step ni(3))
qed (simp_all add: PoolShim_starmap_eqs next_item_None next_item_Some(3))

lemma list_inputs_unraised:
  "\<forall>ev\<in>set (fst (list_inputs chain mf dt ((rs, fys), xs))).
     raised_by func chain mf ev = [] \<Longrightarrow>
   \<exists>tasks. snd (list_inputs chain mf dt ((rs, fys), xs)) = Inr tasks \<and>
     length tasks = min (available fys (length rs)) (length xs) \<and>
     length (builder_calls (fst (list_inputs chain mf dt ((rs, fys), xs)))) =
       min (available fys (length rs)) (Suc (length xs))"
proof (induction rs fys xs rule: pipeline_induct [where chain = chain and mf = mf])
  case (Step r rs fys y fys' m v xs)
  note ni = next_item_Some [OF Step.hyps(1)]
  from Step.prems Step.hyps have
    "\<forall>ev\<in>set (fst (list_inputs chain mf dt ((rs, fys'), xs))).
       raised_by func chain mf ev = []"
    by (simp add: list_inputs_Step)
  from Step.IH [OF this] obtain tasks where
    "snd (list_inputs chain mf dt ((rs, fys'), xs)) = Inr tasks"
    "length tasks = min (available fys' (length rs)) (length xs)"
    "length (builder_calls (fst (list_inputs chain mf dt ((rs, fys'), xs)))) =
       min (available fys' (length rs)) (Suc (length xs))" by blast
  with Step.hyps show ?case by (simp add: list_inputs_Step ni(3))
qed (simp_all add: list_inputs_eqs next_item_None next_item_Some(3))

text \<open>A run that returns: no call of it raised an exception that propagates.\<close>

lemma PoolShim_quiet:
  "snd (PoolShim_starmap func chain mf dt ((rs, fys), xs)) = Inr res \<Longrightarrow>
   ev \<in> set (fst (PoolShim_starmap func chain mf dt ((rs, fys), xs))) \<Longrightarrow>
   propagating func chain mf ev = []"
proof (induction rs fys xs arbitrary: res
    rule: serial_induct [where chain = chain and mf = mf and func = func and dt = dt])
  case (Step r rs fys y fys' m v xs v')
  let ?S = "snd (PoolShim_starmap func chain mf dt ((rs, fys'), xs))"
  from Step.prems(1) Step.hyps obtain res' where "?S = Inr res'"
    by (cases ?S) (auto simp: PoolShim_starmap_Step)
  with Step.prems(2) Step.hyps Step.IH [of res'] show ?case
    by (auto simp: PoolShim_starmap_Step)
qed (auto simp: PoolShim_starmap_eqs)

lemma list_inputs_quiet:
  "snd (list_inputs chain mf dt ((rs, fys), xs)) = Inr tasks \<Longrightarrow>
   ev \<in> set (fst (list_inputs chain mf dt ((rs, fys), xs))) \<Longrightarrow>
   propagating func chain mf ev = []"
proof (induction rs fys xs arbitrary: tasks rule: pipeline_induct [where chain = chain and mf = mf])
  case (Step r rs fys y fys' m v xs)
  let ?L = "snd (list_inputs chain mf dt ((rs, fys'), xs))"
  from Step.prems(1) Step.hyps obtain tasks' where "?L = Inr tasks'"
    by (cases ?L) (auto simp: list_inputs_Step)
  with Step.prems(2) Step.hyps Step.IH [of tasks'] show ?case
    by (auto simp: list_inputs_Step)
qed (auto simp: list_inputs_eqs)

text \<open>
  A run that raises: the exception is one of the last call made, and no call before it
  raised an exception that propagates.
\<close>

lemma PoolShim_failure:
  fixes func :: "'m \<Rightarrow> 'v \<Rightarrow> 't \<Rightarrow> 'e exn + 'v" and chain :: "('r, 'y, 'm, 'e) chain"
  shows "snd (PoolShim_starmap func chain mf dt ((rs, fys), xs)) = Inl e \<Longrightarrow>
   \<exists>pre ev. fst (PoolShim_starmap func chain mf dt ((rs, fys), xs)) = pre @ [ev] \<and>
     e \<in> set (propagating func chain mf ev) \<and>
     (\<forall>ev'\<in>set pre. propagating func chain mf ev' = [])"
proof (induction rs fys xs
    rule: serial_induct [where chain = chain and mf = mf and func = func and dt = dt])
  case (BuildFail r rs fys xs y fys' e')
  let ?bc = "builder_call chain mf r y :: ('r, 'y, 'm, 'v, 't, 'e) event"
  from BuildFail have e: "e = Other e'" by (simp add: PoolShim_starmap_BuildFail)
  with BuildFail have
    "fst (PoolShim_starmap func chain mf dt ((r # rs, fys), xs)) = [] @ [?bc]"
    and "e \<in> set (propagating func chain mf ?bc)"
    by (simp_all add: PoolShim_starmap_BuildFail)
  then show ?case by (metis empty_iff list.set(1))
next
  case (FuncFail r rs fys y fys' m v xs e')
  let ?bc = "builder_call chain mf r y :: ('r, 'y, 'm, 'v, 't, 'e) event"
  from FuncFail have e: "e = Other e'" by (simp add: PoolShim_starmap_FuncFail)
  with FuncFail have
    "fst (PoolShim_starmap func chain mf dt ((r # rs, fys), v # xs)) = [?bc] @ [FuncCall m v dt]"
    and "e \<in> set (propagating func chain mf (FuncCall m v dt))"
    and "\<forall>ev'\<in>set [?bc]. propagating func chain mf ev' = []"
    by (simp_all add: PoolShim_starmap_FuncFail)
  then show ?case by blast
next
  case (Step r rs fys y fys' m v xs v')
  let ?bc = "builder_call chain mf r y :: ('r, 'y, 'm, 'v, 't, 'e) event"
  let ?S = "PoolShim_starmap func chain mf dt ((rs, fys'), xs)"
  from Step.prems Step.hyps have "snd ?S = Inl e"
    by (cases "snd ?S") (auto simp: PoolShim_starmap_Step)
  from Step.IH [OF this] obtain pre ev where
    p: "fst ?S = pre @ [ev]" "e \<in> set (propagating func chain mf ev)"
      "\<forall>ev'\<in>set pre. propagating func chain mf ev' = []"
    by blast
  from Step.hyps p have
    "fst (PoolShim_starmap func chain mf dt ((r # rs, fys), v # xs)) =
       (?bc # FuncCall m v dt # pre) @ [ev]"
    and "\<forall>ev'\<in>set (?bc # FuncCall m v dt # pre). propagating func chain mf ev' = []"
    by (simp_all add: PoolShim_starmap_Step)
  with p(2) show ?case by blast
qed (simp_all add: PoolShim_starmap_eqs)

lemma list_inputs_failure:
  fixes chain :: "('r, 'y, 'm, 'e) chain" and func :: "'m \<Rightarrow> 'v \<Rightarrow> 't \<Rightarrow> 'e exn + 'v"
    and dt :: 't and xs :: "'v list"
  shows "snd (list_inputs chain mf dt ((rs, fys), xs)) = Inl e \<Longrightarrow>
   \<exists>pre ev. fst (list_inputs chain mf dt ((rs, fys), xs)) = pre @ [ev] \<and>
     e \<in> set (propagating func chain mf ev) \<and>
     (\<forall>ev'\<in>set pre. propagating func chain mf ev' = [])"
proof (induction rs fys xs rule: pipeline_induct [where chain = chain and mf = mf])
  case (BuildFail r rs fys xs y fys' e')
  let ?bc = "builder_call chain mf r y :: ('r, 'y, 'm, 'v, 't, 'e) event"
  from BuildFail have e: "e = Other e'" by (simp add: list_inputs_BuildFail)
  with BuildFail have "fst (list_inputs chain mf dt ((r # rs, fys), xs)) = [] @ [?bc]"
    and "e \<in> set (propagating func chain mf ?bc)"
    by (simp_all add: list_inputs_BuildFail)
  then show ?case by (metis empty_iff list.set(1))
next
  case (Step r rs fys y fys' m v xs)
  let ?bc = "builder_call chain mf r y :: ('r, 'y, 'm, 'v, 't, 'e) event"
  let ?L = "list_inputs chain mf dt ((rs, fys'), xs)"
  from Step.prems Step.hyps have "snd ?L = Inl e"
    by (cases "snd ?L") (auto simp: list_inputs_Step)
  from Step.IH [OF this] obtain pre ev where
    p: "fst ?L = pre @ [ev]" "e \<in> set (propagating func chain mf ev)"
      "\<forall>ev'\<in>set pre. propagating func chain mf ev' = []"
    by blast
  from Step.hyps p have
    "fst (list_inputs chain mf dt ((r # rs, fys), v # xs)) = (?bc # pre) @ [ev]"
    and "\<forall>ev'\<in>set (?bc # pre). propagating func chain mf ev' = []"
    by (simp_all add: list_inputs_Step)
  with p(2) show ?case by blast
qed (simp_all add: list_inputs_eqs)

text \<open>Neither executor enters an executor of its own.\<close>

lemma PoolShim_no_enter:
  "pools_entered (fst (PoolShim_starmap func chain mf dt ((rs, fys), xs))) = []"
  by (induction rs fys xs
      rule: serial_induct [where chain = chain and mf = mf and func = func and dt = dt])
     (simp_all add: PoolShim_starmap_eqs)

lemma list_inputs_no_enter:
  "pools_entered (fst (list_inputs chain mf dt ((rs, fys), xs))) = []"
  by (induction rs fys xs rule: pipeline_induct [where chain = chain and mf = mf])
     (simp_all add: list_inputs_eqs)

text \<open>Lists of outcomes.\<close>

lemma raised_map_Inr [simp]: "raised (map Inr res) = []"
  by (induction res) simp_all

lemma returned_map_Inr [simp]: "returned (map Inr res) = res"
  by (induction res) simp_all

lemma raised_Nil_returned: "raised os = [] \<Longrightarrow> os = map Inr (returned os)"
proof (induction os)
  case Nil
  show ?case by simp
next
  case (Cons a os)
  then show ?case by (cases a) simp_all
qed

lemma raised_Nil_iff: "raised os = [] \<and> returned os = res \<longleftrightarrow> os = map Inr res"
  using raised_Nil_returned [of os] by (metis raised_map_Inr returned_map_Inr)

text \<open>
  With a \<open>func\<close> that never raises \<open>StopIteration\<close>, the serial executor returns a list
  exactly when draining the inputs and then applying \<open>func\<close> to each gives that list.
\<close>

lemma serial_parallel_success:
  assumes "\<And>m v t. func m v t \<noteq> Inl StopIteration"
  shows "snd (PoolShim_starmap func chain mf dt ((rs, fys), xs)) = Inr res \<longleftrightarrow>
   (\<exists>tasks. snd (list_inputs chain mf dt ((rs, fys), xs)) = Inr tasks \<and>
      map (\<lambda>(m, v, t). func m v t) tasks = map Inr res)"
proof (induction rs fys xs arbitrary: res
    rule: serial_induct [where chain = chain and mf = mf and func = func and dt = dt])
  case (FuncStop r rs fys y fys' m v xs)
  with assms show ?case by simp
next
  case (FuncFail r rs fys y fys' m v xs e)
  let ?L = "snd (list_inputs chain mf dt ((rs, fys'), xs))"
  from FuncFail show ?case
    by (cases ?L) (auto simp: PoolShim_starmap_FuncFail list_inputs_Step)
next
  case (Step r rs fys y fys' m v xs v')
  let ?S = "snd (PoolShim_starmap func chain mf dt ((rs, fys'), xs))"
  let ?L = "snd (list_inputs chain mf dt ((rs, fys'), xs))"
  show ?case
  proof
    assume "snd (PoolShim_starmap func chain mf dt ((r # rs, fys), v # xs)) = Inr res"
    with Step.hyps obtain res' where r: "?S = Inr res'" "res = v' # res'"
      by (cases ?S) (auto simp: PoolShim_starmap_Step)
    from Step.IH [of res'] r(1) obtain tasks' where
      "?L = Inr tasks'" "map (\<lambda>(m, v, t). func m v t) tasks' = map Inr res'" by blast
    with Step.hyps r(2)
    show "\<exists>tasks. snd (list_inputs chain mf dt ((r # rs, fys), v # xs)) = Inr tasks \<and>
        map (\<lambda>(m, v, t). func m v t) tasks = map Inr res"
      by (simp add: list_inputs_Step)
  next
    assume "\<exists>tasks. snd (list_inputs chain mf dt ((r # rs, fys), v # xs)) = Inr tasks \<and>
        map (\<lambda>(m, v, t). func m v t) tasks = map Inr res"
    then obtain tasks where t: "snd (list_inputs chain mf dt ((r # rs, fys), v # xs)) = Inr tasks"
      "map (\<lambda>(m, v, t). func m v t) tasks = map Inr res" by blast
    from t(1) Step.hyps obtain tasks' where t': "?L = Inr tasks'" "tasks = (m, v, dt) # tasks'"
      by (cases ?L) (auto simp: list_inputs_Step)
    from t(2) t'(2) Step.hyps obtain res' where r: "res = v' # res'"
      "map (\<lambda>(m, v, t). func m v t) tasks' = map Inr res'"
      by (cases res) auto
    from Step.IH [of res'] t'(1) r(2) have "?S = Inr res'" by blast
    with Step.hyps r(1)
    show "snd (PoolShim_starmap func chain mf dt ((r # rs, fys), v # xs)) = Inr res"
      by (simp add: PoolShim_starmap_Step)
  qed
qed (auto simp: PoolShim_starmap_eqs list_inputs_eqs)

text \<open>The parallel executor, from the facts about \<open>list_inputs\<close>.\<close>

lemma Pool_starmap_fst:
  "builder_calls (fst (Pool_starmap fd func chain mf dt st)) =
   builder_calls (fst (list_inputs chain mf dt st))"
  by (cases "list_inputs chain mf dt st"; cases "snd (list_inputs chain mf dt st)")
     (auto simp: Pool_starmap_def Let_def)

lemma Pool_starmap_success_iff:
  "snd (Pool_starmap fd func chain mf dt st) = Inr res \<longleftrightarrow>
   (\<exists>tasks. snd (list_inputs chain mf dt st) = Inr tasks \<and>
      map (\<lambda>(m, v, t). func m v t) tasks = map Inr res)"
proof (cases "snd (list_inputs chain mf dt st)")
  case (Inl e)
  then show ?thesis
    by (cases "list_inputs chain mf dt st") (simp add: Pool_starmap_def)
next
  case (Inr tasks)
  then show ?thesis
    using raised_Nil_iff [of "map (\<lambda>(m, v, t). func m v t) tasks" res]
    by (cases "list_inputs chain mf dt st") (auto simp: Pool_starmap_def Let_def)
qed

lemma Pool_starmap_success:
  assumes "snd (Pool_starmap fd func chain mf dt ((rs, fys), xs)) = Inr res"
  shows "length res \<le> min (available fys (length rs)) (length xs)"
    and "i < length res \<Longrightarrow>
      \<exists>m. builder chain mf (rs ! i) (item fys i) = Inr m \<and> func m (xs ! i) dt = Inr (res ! i)"
proof -
  from assms obtain tasks where
    t: "snd (list_inputs chain mf dt ((rs, fys), xs)) = Inr tasks"
       "map (\<lambda>(m, v, t). func m v t) tasks = map Inr res"
    by (auto simp: Pool_starmap_success_iff)
  from t(2) have len: "length tasks = length res" by (metis length_map)
  note li = list_inputs_success [OF t(1)]
  from li len show "length res \<le> min (available fys (length rs)) (length xs)" by simp
  assume i: "i < length res"
  with li len obtain m where m: "builder chain mf (rs ! i) (item fys i) = Inr m"
    "tasks ! i = (m, xs ! i, dt)" by auto
  from i len have "map (\<lambda>(m, v, t). func m v t) tasks ! i = (\<lambda>(m, v, t). func m v t) (tasks ! i)"
    by simp
  with t(2) i m(2) have "func m (xs ! i) dt = Inr (res ! i)" by simp
  with m(1) show "\<exists>m. builder chain mf (rs ! i) (item fys i) = Inr m \<and>
    func m (xs ! i) dt = Inr (res ! i)" by blast
qed

lemma Pool_PoolShim_success:
  assumes "\<And>m v t. func m v t \<noteq> Inl StopIteration"
  shows "snd (Pool_starmap fd func chain mf dt ((rs, fys), xs)) = Inr res \<longleftrightarrow>
   snd (PoolShim_starmap func chain mf dt ((rs, fys), xs)) = Inr res"
  by (simp only: Pool_starmap_success_iff serial_parallel_success [OF assms])

lemma Pool_starmap_unraised:
  assumes "\<forall>ev\<in>set (fst (Pool_starmap fd func chain mf dt ((rs, fys), xs))).
     raised_by func chain mf ev = []"
  shows "\<exists>res. snd (Pool_starmap fd func chain mf dt ((rs, fys), xs)) = Inr res \<and>
     length res = min (available fys (length rs)) (length xs) \<and>
     length (builder_calls (fst (Pool_starmap fd func chain mf dt ((rs, fys), xs)))) =
       min (available fys (length rs)) (Suc (length xs))"
proof -
  obtain evs r where l: "list_inputs chain mf dt ((rs, fys), xs) = (evs, r)"
    by (cases "list_inputs chain mf dt ((rs, fys), xs)")
  from l have "set evs \<subseteq> set (fst (Pool_starmap fd func chain mf dt ((rs, fys), xs)))"
    by (cases r) (auto simp: Pool_starmap_def Let_def)
  with assms l have "\<forall>ev\<in>set (fst (list_inputs chain mf dt ((rs, fys), xs))).
     raised_by func chain mf ev = []" by auto
  from list_inputs_unraised [OF this] l obtain tasks where
    t: "r = Inr tasks" "length tasks = min (available fys (length rs)) (length xs)"
      "length (builder_calls evs) = min (available fys (length rs)) (Suc (length xs))"
    by auto
  let ?os = "map (\<lambda>(m, v, t). func m v t) tasks"
  from l t(1) have "Dispatch tasks \<in> set (fst (Pool_starmap fd func chain mf dt ((rs, fys), xs)))"
    by (simp add: Pool_starmap_def Let_def)
  with assms have q: "raised ?os = []" by fastforce
  from raised_Nil_returned [OF q] have "length (returned ?os) = length tasks"
    by (metis length_map)
  with l t q show ?thesis by (simp add: Pool_starmap_def Let_def)
qed

lemma Pool_starmap_quiet:
  assumes "snd (Pool_starmap fd func chain mf dt ((rs, fys), xs)) = Inr res"
    and "ev \<in> set (fst (Pool_starmap fd func chain mf dt ((rs, fys), xs)))"
  shows "propagating func chain mf ev = []"
proof -
  obtain evs r where l: "list_inputs chain mf dt ((rs, fys), xs) = (evs, r)"
    by (cases "list_inputs chain mf dt ((rs, fys), xs)")
  from assms(1) obtain tasks where t: "r = Inr tasks"
    "map (\<lambda>(m, v, t). func m v t) tasks = map Inr res"
    using l by (auto simp: Pool_starmap_success_iff)
  from l t assms(2) have "ev \<in> set evs \<or> ev = Dispatch tasks"
    by (auto simp: Pool_starmap_def Let_def)
  then show ?thesis
  proof
    assume "ev \<in> set evs"
    with list_inputs_quiet [of chain mf dt rs fys xs tasks ev func] l t(1) show ?thesis by simp
  next
    assume "ev = Dispatch tasks"
    with t(2) show ?thesis by simp
  qed
qed

lemma Pool_starmap_failure:
  fixes chain :: "('r, 'y, 'm, 'e) chain" and func :: "'m \<Rightarrow> 'v \<Rightarrow> 't \<Rightarrow> 'e exn + 'v"
    and dt :: 't and xs :: "'v list"
  assumes "snd (Pool_starmap fd func chain mf dt ((rs, fys), xs)) = Inl e"
  shows "\<exists>pre ev. fst (Pool_starmap fd func chain mf dt ((rs, fys), xs)) = pre @ [ev] \<and>
     e \<in> set (propagating func chain mf ev) \<and>
     (\<forall>ev'\<in>set pre. propagating func chain mf ev' = [])"
proof -
  obtain evs r where l: "list_inputs chain mf dt ((rs, fys), xs) = (evs, r)"
    by (cases "list_inputs chain mf dt ((rs, fys), xs)")
  show ?thesis
  proof (cases r)
    case (Inl e')
    with l assms have "e' = e"
      and "fst (Pool_starmap fd func chain mf dt ((rs, fys), xs)) = evs"
      by (simp_all add: Pool_starmap_def)
    with list_inputs_failure [of chain mf dt rs fys xs e func] l Inl show ?thesis by simp
  next
    case (Inr tasks)
    let ?fs = "raised (map (\<lambda>(m, v, t). func m v t) tasks)"
    from l Inr assms have ne: "?fs \<noteq> []" and e: "e = ?fs ! (fd (length ?fs) mod length ?fs)"
      by (auto simp: Pool_starmap_def Let_def split: if_splits)
    from ne have "fd (length ?fs) mod length ?fs < length ?fs" by simp
    with e have "e \<in> set ?fs" by (metis nth_mem)
    then have "e \<in> set (propagating func chain mf
        (Dispatch tasks :: ('r, 'y, 'm, 'v, 't, 'e) event))"
      by simp
    moreover from l Inr have
      "fst (Pool_starmap fd func chain mf dt ((rs, fys), xs)) = evs @ [Dispatch tasks]"
      by (simp add: Pool_starmap_def Let_def)
    moreover have "\<forall>ev'\<in>set evs. propagating func chain mf ev' = []"
      using list_inputs_quiet [of chain mf dt rs fys xs tasks _ func] l Inr by simp
    ultimately show ?thesis by blast
  qed
qed

lemma Pool_starmap_no_enter:
  "pools_entered (fst (Pool_starmap fd func chain mf dt ((rs, fys), xs))) = []"
  using list_inputs_no_enter [of chain mf dt rs fys xs]
  by (cases "list_inputs chain mf dt ((rs, fys), xs)";
      cases "snd (list_inputs chain mf dt ((rs, fys), xs))")
     (auto simp: Pool_starmap_def Let_def)

section \<open>The \<open>with\<close> block\<close>

lemma with_pool_trace:
  "fst (with_pool fd pc func chain mf dt st) =
     Enter pc # fst (case pc of PoolShim \<Rightarrow> PoolShim_starmap func chain mf dt st
                     | Pool \<Rightarrow> Pool_starmap fd func chain mf dt st) @ [Exit pc]"
  by (simp add: with_pool_def split: prod.splits pool_class.splits)

lemma with_pool_result:
  "snd (with_pool fd pc func chain mf dt st) =
     map_sum Raised id (snd (case pc of PoolShim \<Rightarrow> PoolShim_starmap func chain mf dt st
                     | Pool \<Rightarrow> Pool_starmap fd func chain mf dt st))"
  by (simp add: with_pool_def split: prod.splits pool_class.splits)

lemma with_pool_Inr:
  "snd (with_pool fd pc func chain mf dt st) = Inr res \<longleftrightarrow>
   snd (case pc of PoolShim \<Rightarrow> PoolShim_starmap func chain mf dt st
        | Pool \<Rightarrow> Pool_starmap fd func chain mf dt st) = Inr res"
  by (cases "snd (case pc of PoolShim \<Rightarrow> PoolShim_starmap func chain mf dt st
        | Pool \<Rightarrow> Pool_starmap fd func chain mf dt st)")
     (simp_all add: with_pool_result)

lemma with_pool_builder_calls:
  assumes "k < length (builder_calls (fst (with_pool fd pc func chain mf dt ((rs, fys), xs))))"
  shows "builder_calls (fst (with_pool fd pc func chain mf dt ((rs, fys), xs))) ! k =
     builder_call chain mf (rs ! k) (item fys k) \<and> k < available fys (length rs)"
proof (cases pc)
  case Pool
  with assms list_inputs_builder_calls [of k chain mf dt rs fys xs] show ?thesis
    by (simp add: with_pool_trace Pool_starmap_fst)
next
  case PoolShim
  with assms PoolShim_builder_calls [of k func chain mf dt rs fys xs] show ?thesis
    by (simp add: with_pool_trace)
qed

lemma with_pool_success:
  assumes "snd (with_pool fd pc func chain mf dt ((rs, fys), xs)) = Inr res"
  shows "length res \<le> min (available fys (length rs)) (length xs)"
    and "i < length res \<Longrightarrow>
      \<exists>m. builder chain mf (rs ! i) (item fys i) = Inr m \<and> func m (xs ! i) dt = Inr (res ! i)"
proof -
  have "length res \<le> min (available fys (length rs)) (length xs) \<and>
    (\<forall>i<length res. \<exists>m. builder chain mf (rs ! i) (item fys i) = Inr m \<and>
       func m (xs ! i) dt = Inr (res ! i))"
  proof (cases pc)
    case Pool
    with assms have "snd (Pool_starmap fd func chain mf dt ((rs, fys), xs)) = Inr res"
      by (simp add: with_pool_Inr)
    from Pool_starmap_success [OF this] show ?thesis by blast
  next
    case PoolShim
    with assms have "snd (PoolShim_starmap func chain mf dt ((rs, fys), xs)) = Inr res"
      by (simp add: with_pool_Inr)
    from PoolShim_success [OF this] show ?thesis .
  qed
  then show "length res \<le> min (available fys (length rs)) (length xs)"
    and "i < length res \<Longrightarrow>
      \<exists>m. builder chain mf (rs ! i) (item fys i) = Inr m \<and> func m (xs ! i) dt = Inr (res ! i)"
    by simp_all
qed

lemma with_pool_unraised:
  assumes "\<forall>ev\<in>set (fst (with_pool fd pc func chain mf dt ((rs, fys), xs))).
     raised_by func chain mf ev = []"
  shows "\<exists>res. snd (with_pool fd pc func chain mf dt ((rs, fys), xs)) = Inr res \<and>
     length res = min (available fys (length rs)) (length xs) \<and>
     length (builder_calls (fst (with_pool fd pc func chain mf dt ((rs, fys), xs)))) =
       min (available fys (length rs)) (Suc (length xs))"
proof (cases pc)
  case Pool
  with assms have "\<forall>ev\<in>set (fst (Pool_starmap fd func chain mf dt ((rs, fys), xs))).
     raised_by func chain mf ev = []" by (simp add: with_pool_trace)
  from Pool_starmap_unraised [OF this] Pool show ?thesis
    by (auto simp: with_pool_trace with_pool_result)
next
  case PoolShim
  with assms have "\<forall>ev\<in>set (fst (PoolShim_starmap func chain mf dt ((rs, fys), xs))).
     raised_by func chain mf ev = []" by (simp add: with_pool_trace)
  from PoolShim_unraised [OF this] PoolShim show ?thesis
    by (auto simp: with_pool_trace with_pool_result)
qed

lemma with_pool_quiet:
  assumes "snd (with_pool fd pc func chain mf dt ((rs, fys), xs)) = Inr res"
    and "ev \<in> set (fst (with_pool fd pc func chain mf dt ((rs, fys), xs)))"
  shows "propagating func chain mf ev = []"
proof (cases pc)
  case Pool
  with assms(1) have "snd (Pool_starmap fd func chain mf dt ((rs, fys), xs)) = Inr res"
    by (simp add: with_pool_Inr)
  from Pool_starmap_quiet [OF this] assms(2) Pool show ?thesis
    by (auto simp: with_pool_trace)
next
  case PoolShim
  with assms(1) have "snd (PoolShim_starmap func chain mf dt ((rs, fys), xs)) = Inr res"
    by (simp add: with_pool_Inr)
  from PoolShim_quiet [OF this] assms(2) PoolShim show ?thesis
    by (auto simp: with_pool_trace)
qed

lemma with_pool_failure:
  fixes chain :: "('r, 'y, 'm, 'e) chain" and func :: "'m \<Rightarrow> 'v \<Rightarrow> 't \<Rightarrow> 'e exn + 'v"
    and dt :: 't and xs :: "'v list"
  assumes "snd (with_pool fd pc func chain mf dt ((rs, fys), xs)) = Inl err"
  shows "\<exists>e pre ev. err = Raised e \<and>
     fst (with_pool fd pc func chain mf dt ((rs, fys), xs)) = Enter pc # pre @ [ev, Exit pc] \<and>
     e \<in> set (propagating func chain mf ev) \<and>
     (\<forall>ev'\<in>set pre. propagating func chain mf ev' = [])"
proof -
  let ?run = "case pc of PoolShim \<Rightarrow> PoolShim_starmap func chain mf dt ((rs, fys), xs)
              | Pool \<Rightarrow> Pool_starmap fd func chain mf dt ((rs, fys), xs)"
  from assms obtain e where e: "snd ?run = Inl e" "err = Raised e"
    by (cases "snd ?run") (auto simp: with_pool_result)
  have "\<exists>pre ev. fst ?run = pre @ [ev] \<and>
     e \<in> set (propagating func chain mf ev) \<and>
     (\<forall>ev'\<in>set pre. propagating func chain mf ev' = [])"
  proof (cases pc)
    case Pool
    with e(1) Pool_starmap_failure [of fd func chain mf dt rs fys xs e] show ?thesis by simp
  next
    case PoolShim
    with e(1) PoolShim_failure [of func chain mf dt rs fys xs e] show ?thesis by simp
  qed
  then obtain pre ev where "fst ?run = pre @ [ev]" "e \<in> set (propagating func chain mf ev)"
    "\<forall>ev'\<in>set pre. propagating func chain mf ev' = []" by blast
  with e(2) show ?thesis by (simp add: with_pool_trace)
qed

lemma with_pool_pools_entered:
  "pools_entered (fst (with_pool fd pc func chain mf dt ((rs, fys), xs))) = [pc]"
  by (cases pc) (simp_all add: with_pool_trace PoolShim_no_enter Pool_starmap_no_enter)

lemma x_result_eqI:
  assumes "\<And>res. a = Inr res \<longleftrightarrow> b = Inr res"
  shows "x_result a = x_result b"
proof (cases a)
  case (Inl e)
  with assms have "b \<noteq> Inr res" for res by simp
  then obtain e' where "b = Inl e'" by (cases b) auto
  with Inl show ?thesis by (simp add: x_result_def)
next
  case (Inr r)
  with assms [of r] have "b = Inr r" by simp
  with Inr show ?thesis by (simp add: x_result_def)
qed

lemma with_pool_same_result:
  assumes "\<And>m v t. func m v t \<noteq> Inl StopIteration"
  shows "x_result (snd (with_pool fd Pool func chain mf dt ((rs, fys), xs))) =
         x_result (snd (with_pool fd' PoolShim func chain mf dt ((rs, fys), xs)))"
  by (rule x_result_eqI) (simp add: with_pool_Inr Pool_PoolShim_success [OF assms])

section \<open>The dispatcher as a whole\<close>

lemma deplete_cases [case_names mismatch run]:
  fixes chain :: "('r, 'y, 'm, 'e) chain"
  obtains
    "length (fission_yields chain) \<noteq> 1" "length (fission_yields chain) \<noteq> length x"
    "DepletionDispatcher_deplete fd self func chain x rates dt mf =
       (self, [], Inl (ValueError
          (mismatch_message (length (fission_yields chain)) (length x))))"
  | fys where
    "length (fission_yields chain) = 1 \<or> length (fission_yields chain) = length x"
    "DepletionDispatcher_deplete fd self func chain x rates dt mf =
       (self, with_pool fd (pool_class self) func chain mf dt ((rates, fys), x))"
    "\<And>k. length (fission_yields chain) = 1 \<or> k < length x \<Longrightarrow> item fys k = yield_for chain k"
    "\<And>n. available fys n =
       (if length (fission_yields chain) = 1 then n else min n (length x))"
proof (cases "length (fission_yields chain) = 1")
  case True
  show ?thesis
  proof (rule that(2) [of "Repeat (fission_yields chain ! 0)"])
    show "length (fission_yields chain) = 1 \<or> length (fission_yields chain) = length x"
      using True by simp
    show "DepletionDispatcher_deplete fd self func chain x rates dt mf =
       (self, with_pool fd (pool_class self) func chain mf dt
          ((rates, Repeat (fission_yields chain ! 0)), x))"
      using True by (simp add: DepletionDispatcher_deplete_def)
    show "item (Repeat (fission_yields chain ! 0)) k = yield_for chain k" for k
      using True by (simp add: yield_for_def)
    show "available (Repeat (fission_yields chain ! 0)) n =
       (if length (fission_yields chain) = 1 then n else min n (length x))" for n
      using True by simp
  qed
next
  case False
  show ?thesis
  proof (cases "length (fission_yields chain) = length x")
    case neq: False
    with False show ?thesis
      by (intro that(1)) (simp_all add: DepletionDispatcher_deplete_def)
  next
    case True
    show ?thesis
    proof (rule that(2) [of "Items (fission_yields chain)"])
      show "length (fission_yields chain) = 1 \<or> length (fission_yields chain) = length x"
        using True by simp
      show "DepletionDispatcher_deplete fd self func chain x rates dt mf =
         (self, with_pool fd (pool_class self) func chain mf dt
            ((rates, Items (fission_yields chain)), x))"
        using True False by (simp add: DepletionDispatcher_deplete_def)
      show "item (Items (fission_yields chain)) k = yield_for chain k" for k
        using False by (simp add: yield_for_def)
      show "available (Items (fission_yields chain)) n =
         (if length (fission_yields chain) = 1 then n else min n (length x))" for n
        using True False by simp
    qed
  qed
qed

lemma deplete_builder_calls:
  assumes "DepletionDispatcher_deplete first_done self func chain x rates dt matrix_func =
             (self', tr, result)"
    and "k < length (builder_calls tr)"
  shows "builder_calls tr ! k = builder_call chain matrix_func (rates ! k) (yield_for chain k)"
    and "k < length rates"
    and "length (fission_yields chain) \<noteq> 1 \<Longrightarrow> k < length x"
proof -
  have "builder_calls tr ! k = builder_call chain matrix_func (rates ! k) (yield_for chain k) \<and>
    k < length rates \<and> (length (fission_yields chain) \<noteq> 1 \<longrightarrow> k < length x)"
  proof (cases rule: deplete_cases [of chain x first_done self func rates dt matrix_func])
    case mismatch
    with assms show ?thesis by simp
  next
    case (run fys)
    with assms have "with_pool first_done (pool_class self) func chain matrix_func
      dt ((rates, fys), x) = (tr, result)" by auto
    then have tr: "tr = fst (with_pool first_done (pool_class self) func chain matrix_func
      dt ((rates, fys), x))" by simp
    from with_pool_builder_calls [of k first_done "pool_class self" func chain matrix_func dt
        rates fys x] assms(2) tr
    have *: "builder_calls tr ! k = builder_call chain matrix_func (rates ! k) (item fys k)"
      "k < available fys (length rates)" by simp_all
    from *(2) run(4) [of "length rates"]
    have k: "k < length rates" "length (fission_yields chain) \<noteq> 1 \<longrightarrow> k < length x"
      by (simp_all split: if_splits)
    with run(3) [of k] have "item fys k = yield_for chain k" by blast
    with * k show ?thesis by simp
  qed
  then show "builder_calls tr ! k = builder_call chain matrix_func (rates ! k) (yield_for chain k)"
    and "k < length rates"
    and "length (fission_yields chain) \<noteq> 1 \<Longrightarrow> k < length x"
    by simp_all
qed

lemma deplete_unraised:
  assumes "DepletionDispatcher_deplete first_done self func chain x rates dt matrix_func =
             (self', tr, result)"
    and "length (fission_yields chain) = 1 \<or> length (fission_yields chain) = length x"
    and "\<forall>ev\<in>set tr. raised_by func chain matrix_func ev = []"
  shows "\<exists>res. result = Inr res \<and> length res = min (length rates) (length x)"
    and "length (builder_calls tr) =
           (if length (fission_yields chain) = 1 then min (length rates) (Suc (length x))
            else min (length rates) (length x))"
proof -
  have "(\<exists>res. result = Inr res \<and> length res = min (length rates) (length x)) \<and>
    length (builder_calls tr) =
           (if length (fission_yields chain) = 1 then min (length rates) (Suc (length x))
            else min (length rates) (length x))"
  proof (cases rule: deplete_cases [of chain x first_done self func rates dt matrix_func])
    case mismatch
    with assms(2) show ?thesis by simp
  next
    case (run fys)
    with assms(1) have "with_pool first_done (pool_class self) func chain matrix_func
      dt ((rates, fys), x) = (tr, result)" by auto
    then have W: "tr = fst (with_pool first_done (pool_class self) func chain matrix_func
      dt ((rates, fys), x))" "result = snd (with_pool first_done (pool_class self) func chain
      matrix_func dt ((rates, fys), x))" by simp_all
    from assms(3) W(1) have "\<forall>ev\<in>set (fst (with_pool first_done (pool_class self) func chain
      matrix_func dt ((rates, fys), x))). raised_by func chain matrix_func ev = []" by simp
    from with_pool_unraised [OF this] W run(4) [of "length rates"] show ?thesis
      by (auto split: if_splits)
  qed
  then show "\<exists>res. result = Inr res \<and> length res = min (length rates) (length x)"
    and "length (builder_calls tr) =
           (if length (fission_yields chain) = 1 then min (length rates) (Suc (length x))
            else min (length rates) (length x))" by simp_all
qed

lemma deplete_result:
  assumes "DepletionDispatcher_deplete first_done self func chain x rates dt matrix_func =
             (self', tr, Inr res)"
  shows "length res \<le> min (length rates) (length x)"
    and "i < length res \<Longrightarrow>
      \<exists>m. builder chain matrix_func (rates ! i) (yield_for chain i) = Inr m \<and>
          func m (x ! i) dt = Inr (res ! i)"
proof -
  show len: "length res \<le> min (length rates) (length x)"
  proof (cases rule: deplete_cases [of chain x first_done self func rates dt matrix_func])
    case mismatch
    with assms show ?thesis by simp
  next
    case (run fys)
    with assms have ok: "snd (with_pool first_done (pool_class self) func chain matrix_func
      dt ((rates, fys), x)) = Inr res" by auto
    from with_pool_success(1) [OF ok] run(4) [of "length rates"] show ?thesis
      by (simp split: if_splits)
  qed
  assume i: "i < length res"
  show "\<exists>m. builder chain matrix_func (rates ! i) (yield_for chain i) = Inr m \<and>
          func m (x ! i) dt = Inr (res ! i)"
  proof (cases rule: deplete_cases [of chain x first_done self func rates dt matrix_func])
    case mismatch
    with assms show ?thesis by simp
  next
    case (run fys)
    with assms have ok: "snd (with_pool first_done (pool_class self) func chain matrix_func
      dt ((rates, fys), x)) = Inr res" by auto
    from i len have "i < length x" by simp
    with run(3) [of i] have "item fys i = yield_for chain i" by simp
    with with_pool_success(2) [OF ok i] show ?thesis by simp
  qed
qed

lemma deplete_mismatch_or_run:
  fixes chain :: "('r, 'y, 'm, 'e) chain"
  assumes "DepletionDispatcher_deplete first_done self func chain x rates dt matrix_func =
             (self', tr, result)"
  shows "self' = self"
    and "pools_entered tr =
           (if length (fission_yields chain) = 1 \<or> length (fission_yields chain) = length x
            then [pool_class self] else [])"
proof -
  have "self' = self \<and> pools_entered tr =
           (if length (fission_yields chain) = 1 \<or> length (fission_yields chain) = length x
            then [pool_class self] else [])"
  proof (cases rule: deplete_cases [of chain x first_done self func rates dt matrix_func])
    case mismatch
    with assms show ?thesis by auto
  next
    case (run fys)
    with assms have "self' = self" "tr = fst (with_pool first_done (pool_class self) func chain
      matrix_func dt ((rates, fys), x))" by auto
    with run(1) show ?thesis by (simp add: with_pool_pools_entered)
  qed
  then show "self' = self"
    and "pools_entered tr =
           (if length (fission_yields chain) = 1 \<or> length (fission_yields chain) = length x
            then [pool_class self] else [])" by simp_all
qed

text \<open>Evaluating a call on given inputs.\<close>

lemma PoolShim_starmap_Cons:
  "PoolShim_starmap func chain mf dt ((r # rs, fys), xs) =
     (case next_item fys of
        None \<Rightarrow> ([], Inr [])
      | Some (y, fys') \<Rightarrow>
          (case builder chain mf r y of
             Inl StopIteration \<Rightarrow> ([builder_call chain mf r y], Inr [])
           | Inl (Other e) \<Rightarrow> ([builder_call chain mf r y], Inl (Other e))
           | Inr m \<Rightarrow>
               (case xs of
                  [] \<Rightarrow> ([builder_call chain mf r y], Inr [])
                | v # xs' \<Rightarrow>
                    (case func m v dt of
                       Inl StopIteration \<Rightarrow>
                         ([builder_call chain mf r y, FuncCall m v dt], Inr [])
                     | Inl (Other e) \<Rightarrow>
                         ([builder_call chain mf r y, FuncCall m v dt], Inl (Other e))
                     | Inr v' \<Rightarrow>
                         (case PoolShim_starmap func chain mf dt ((rs, fys'), xs') of
                            (evs', res) \<Rightarrow>
                              (builder_call chain mf r y # FuncCall m v dt # evs',
                               map_sum id ((#) v') res))))))"
  by (subst PoolShim_starmap.simps)
     (simp add: inputs_next_Cons split: option.splits sum.splits list.splits exn.splits)

lemma list_inputs_Cons:
  "list_inputs chain mf dt ((r # rs, fys), xs) =
     (case next_item fys of
        None \<Rightarrow> ([], Inr [])
      | Some (y, fys') \<Rightarrow>
          (case builder chain mf r y of
             Inl StopIteration \<Rightarrow> ([builder_call chain mf r y], Inr [])
           | Inl (Other e) \<Rightarrow> ([builder_call chain mf r y], Inl (Other e))
           | Inr m \<Rightarrow>
               (case xs of
                  [] \<Rightarrow> ([builder_call chain mf r y], Inr [])
                | v # xs' \<Rightarrow>
                    (case list_inputs chain mf dt ((rs, fys'), xs') of
                       (evs', res) \<Rightarrow>
                         (builder_call chain mf r y # evs',
                          map_sum id ((#) (m, v, dt)) res)))))"
  by (subst list_inputs.simps)
     (simp add: inputs_next_Cons split: option.splits sum.splits list.splits exn.splits)

lemmas run_simps =
  DepletionDispatcher_deplete_def DepletionDispatcher_init_def with_pool_def Pool_starmap_def
  PoolShim_starmap_Nil PoolShim_starmap_Cons list_inputs_Nil list_inputs_Cons
  builder_def builder_call_def builder_calls_def Let_def

lemmas example_simps =
  chain_one_def chain_three_def chain_stops_def add_matrix_def fails_at_def stops_at_def fixed_matrix_def

lemma others_subset: "e \<in> set (others es) \<Longrightarrow> e \<in> set es"
proof (induction es)
  case Nil
  then show ?case by simp
next
  case (Cons a es)
  then show ?case by (cases a) auto
qed

lemma propagating_raised_by:
  "e \<in> set (propagating func chain mf ev) \<Longrightarrow> e \<in> set (raised_by func chain mf ev)"
  by (cases ev) (auto dest: others_subset)

lemma others_raised_by_propagating:
  "propagating func chain mf ev = [] \<Longrightarrow> others (raised_by func chain mf ev) = []"
  by (cases ev) simp_all

section \<open>Properties of the dispatcher\<close>

text \<open>
  C1. The one-shot \<open>deplete\<close> is documented to take \<open>matrix_func\<close> like
  \<open>DepletionDispatcher.deplete\<close>, and is claimed to return what a dispatcher returns on
  the same arguments. It does not: it passes \<open>matrix_func=None\<close> on. With a
  \<open>matrix_func\<close> that returns the matrix 100 where \<open>chain.form_matrix\<close> returns 5, the
  one-shot call builds its matrix with \<open>chain.form_matrix\<close> and returns \<open>[15]\<close>; the
  dispatcher builds it with \<open>matrix_func\<close> and returns \<open>[110]\<close>.
\<close>

theorem one_shot_deplete_discards_matrix_func:
  "deplete (\<lambda>k. 0) add_matrix chain_one [10] [1] 7 (Some fixed_matrix) =
     ([Enter Pool, FormMatrix 1 4, Dispatch [(5, 10, 7)], Exit Pool], Inr [15]) \<and>
   snd (DepletionDispatcher_deplete (\<lambda>k. 0) (DepletionDispatcher_init True)
          add_matrix chain_one [10] [1] 7 (Some fixed_matrix)) =
     ([Enter Pool, MatrixFunc chain_one 1 4, Dispatch [(100, 10, 7)], Exit Pool], Inr [110])"
  by (simp add: deplete_def run_simps example_simps)

text \<open>
  C2. When the chain's fission-yield table has neither one entry nor as many entries as
  \<open>x\<close> has atom vectors, \<open>DepletionDispatcher.deplete\<close> raises \<open>ValueError\<close> and the
  call has no event: the matrix builder is not called, no executor is entered, nothing
  is dispatched.
\<close>

theorem mismatch_fails_before_any_work:
  assumes "length (fission_yields chain) \<noteq> 1"
    and "length (fission_yields chain) \<noteq> length x"
  shows "DepletionDispatcher_deplete first_done self func chain x rates dt matrix_func =
           (self, [], Inl (ValueError
              (mismatch_message (length (fission_yields chain)) (length x))))"
  using assms by (simp add: DepletionDispatcher_deplete_def)

text \<open>
  The instance of a three-entry table and two atom vectors, with a builder that raises
  if called.
\<close>

theorem mismatch_fails_before_any_work_witness:
  "length (fission_yields \<lparr>fission_yields = [4, 5, 6 :: nat],
      form_matrix = (\<lambda>(r :: nat) y. Inl (Other ''builder called'') :: string exn + nat)\<rparr>) \<noteq> 1 \<and>
   length (fission_yields \<lparr>fission_yields = [4, 5, 6 :: nat],
      form_matrix = (\<lambda>(r :: nat) y. Inl (Other ''builder called'') :: string exn + nat)\<rparr>) \<noteq>
     length [10, 20 :: nat] \<and>
   DepletionDispatcher_deplete (\<lambda>k. 0) (DepletionDispatcher_init True)
     (\<lambda>m v (t :: nat). Inr (m + v))
     \<lparr>fission_yields = [4, 5, 6 :: nat],
      form_matrix = (\<lambda>(r :: nat) y. Inl (Other ''builder called'') :: string exn + nat)\<rparr>
     [10, 20 :: nat] [1, 2] 7 None =
   (\<lparr>pool_class = Pool\<rparr>, [],
    Inl (ValueError ''Number of material fission yield distributions 3 is not equal to the number of compositions 2''))"
  using mismatch_fails_before_any_work [of
      "\<lparr>fission_yields = [4, 5, 6 :: nat],
        form_matrix = (\<lambda>(r :: nat) y. Inl (Other ''builder called'') :: string exn + nat)\<rparr>"
      "[10, 20 :: nat]" "\<lambda>k. 0" "DepletionDispatcher_init True"
      "\<lambda>m v (t :: nat). Inr (m + v)" "[1, 2]" 7 None]
  by (simp add: DepletionDispatcher_init_def mismatch_message_def str_nat.simps)

text \<open>
  C3 as stated fails: with a one-entry table, two atom vectors and reaction rates for
  one material only, the call returns normally and the builder has been called once,
  not for each of the two materials.
\<close>

theorem broadcast_builder_not_called_for_every_material:
  "fission_yields chain_one = [4] \<and>
   builder_calls (fst (snd (DepletionDispatcher_deplete (\<lambda>k. 0) (DepletionDispatcher_init False)
     add_matrix chain_one [10, 20] [1] 7 None))) = [FormMatrix 1 4] \<and>
   \<not> length [10, 20 :: nat] \<le> length (builder_calls (fst (snd (DepletionDispatcher_deplete
     (\<lambda>k. 0) (DepletionDispatcher_init False) add_matrix chain_one [10, 20] [1] 7 None))))"
  by (simp add: run_simps example_simps)

text \<open>
  C3, amended. With a one-entry table, every call of the matrix builder receives that
  entry, the \<open>k\<close>-th call together with \<open>rates[k]\<close>. When no call of the builder or of
  \<open>func\<close> raises, the call returns normally and the builder has been called
  \<open>min(len(rates), len(x) + 1)\<close> times: for each of the \<open>len(x)\<close> materials exactly
  when \<open>rates\<close> has at least \<open>len(x)\<close> elements.
\<close>

theorem broadcast_yield_in_every_builder_call:
  assumes "fission_yields chain = [y]"
    and "DepletionDispatcher_deplete first_done self func chain x rates dt matrix_func =
           (self', tr, result)"
  shows "(\<forall>k<length (builder_calls tr).
            builder_calls tr ! k = builder_call chain matrix_func (rates ! k) y \<and>
            k < length rates) \<and>
         ((\<forall>ev\<in>set tr. raised_by func chain matrix_func ev = []) \<longrightarrow>
            (\<exists>res. result = Inr res) \<and>
            length (builder_calls tr) = min (length rates) (Suc (length x)))"
proof -
  from assms(1) have y: "yield_for chain k = y" for k by (simp add: yield_for_def)
  from deplete_builder_calls(1,2) [OF assms(2)] y
  have "\<forall>k<length (builder_calls tr).
            builder_calls tr ! k = builder_call chain matrix_func (rates ! k) y \<and>
            k < length rates" by simp
  moreover have "(\<exists>res. result = Inr res) \<and>
      length (builder_calls tr) = min (length rates) (Suc (length x))"
    if "\<forall>ev\<in>set tr. raised_by func chain matrix_func ev = []"
    using deplete_unraised [OF assms(2) _ that] assms(1) by auto
  ultimately show ?thesis by blast
qed

text \<open>
  The instance of two atom vectors and three reaction rates: no call raises, and there
  are three builder calls, each with the entry 4.
\<close>

theorem broadcast_yield_in_every_builder_call_witness:
  "fission_yields chain_one = [4] \<and>
   DepletionDispatcher_deplete (\<lambda>k. 0) (DepletionDispatcher_init False)
     add_matrix chain_one [10, 20] [1, 2, 3] 7 None =
   (\<lparr>pool_class = PoolShim\<rparr>,
    [Enter PoolShim, FormMatrix 1 4, FuncCall 5 10 7, FormMatrix 2 4, FuncCall 6 20 7,
     FormMatrix 3 4, Exit PoolShim],
    Inr [15, 26]) \<and>
   [FormMatrix 1 4, FormMatrix 2 4, FormMatrix 3 4] ! 2 =
      (builder_call chain_one None ([1, 2, 3] ! 2) 4
        :: (nat, nat, nat, nat, nat, string) event) \<and>
   (3 :: nat) = min (length [1, 2, 3 :: nat]) (Suc (length [10, 20 :: nat]))"
proof -
  have y: "fission_yields chain_one = [4]" by (simp add: chain_one_def)
  have run: "DepletionDispatcher_deplete (\<lambda>k. 0) (DepletionDispatcher_init False)
     add_matrix chain_one [10, 20] [1, 2, 3] 7 None =
   (\<lparr>pool_class = PoolShim\<rparr>,
    [Enter PoolShim, FormMatrix 1 4, FuncCall 5 10 7, FormMatrix 2 4, FuncCall 6 20 7,
     FormMatrix 3 4, Exit PoolShim],
    Inr [15, 26])"
    by (simp add: run_simps example_simps)
  from broadcast_yield_in_every_builder_call [OF y run] y run show ?thesis
    by (simp add: builder_calls_def builder_call_def)
qed





text \<open>
  C6 as stated fails: a \<open>func\<close> that raises \<open>StopIteration\<close> on the second of three
  materials ends the serial executor's list there, and the serial dispatcher returns
  \<open>[15]\<close>; the parallel dispatcher does not return a list.
\<close>

theorem serial_returns_where_parallel_fails:
  "x_result (snd (snd (DepletionDispatcher_deplete (\<lambda>k. 0) (DepletionDispatcher_init False)
     (stops_at 20) chain_one [10, 20, 30] [1, 2, 3] 7 None))) = Some [15] \<and>
   x_result (snd (snd (DepletionDispatcher_deplete (\<lambda>k. 0) (DepletionDispatcher_init True)
     (stops_at 20) chain_one [10, 20, 30] [1, 2, 3] 7 None))) = None \<and>
   x_result (snd (snd (DepletionDispatcher_deplete (\<lambda>k. 0) (DepletionDispatcher_init True)
     (stops_at 20) chain_one [10, 20, 30] [1, 2, 3] 7 None))) \<noteq>
   x_result (snd (snd (DepletionDispatcher_deplete (\<lambda>k. 0) (DepletionDispatcher_init False)
     (stops_at 20) chain_one [10, 20, 30] [1, 2, 3] 7 None)))"
  by (simp add: run_simps example_simps x_result_def)

text \<open>
  C6, amended. With a \<open>func\<close> that never raises \<open>StopIteration\<close>, a dispatcher built
  with \<open>use_multiprocessing=True\<close> and one built with \<open>use_multiprocessing=False\<close> return
  the same list on the same arguments, or both raise, whatever the order in which the
  workers finish.
\<close>

theorem serial_and_parallel_return_the_same:
  assumes "\<And>m v t. func m v t \<noteq> Inl StopIteration"
  shows "x_result (snd (snd (DepletionDispatcher_deplete first_done
           (DepletionDispatcher_init True) func chain x rates dt matrix_func))) =
         x_result (snd (snd (DepletionDispatcher_deplete first_done'
           (DepletionDispatcher_init False) func chain x rates dt matrix_func)))"
  by (simp add: DepletionDispatcher_deplete_def DepletionDispatcher_init_def Let_def
      with_pool_same_result [OF assms])

text \<open>
  The instance of three materials and a \<open>func\<close> that never raises.
\<close>

theorem serial_and_parallel_return_the_same_witness:
  "x_result (snd (snd (DepletionDispatcher_deplete (\<lambda>k. 0) (DepletionDispatcher_init True)
     add_matrix chain_three [10, 20, 30] [1, 2, 3] 7 None))) = Some [15, 27, 39] \<and>
   x_result (snd (snd (DepletionDispatcher_deplete (\<lambda>k. 0) (DepletionDispatcher_init False)
     add_matrix chain_three [10, 20, 30] [1, 2, 3] 7 None))) = Some [15, 27, 39]"
proof -
  have never: "add_matrix m v t \<noteq> Inl StopIteration" for m v t
    by (simp add: add_matrix_def)
  have serial: "x_result (snd (snd (DepletionDispatcher_deplete (\<lambda>k. 0)
     (DepletionDispatcher_init False) add_matrix chain_three [10, 20, 30] [1, 2, 3] 7 None))) =
     Some [15, 27, 39]"
    by (simp add: run_simps example_simps x_result_def)
  from serial_and_parallel_return_the_same [of add_matrix "\<lambda>k. 0" chain_three
      "[10, 20, 30]" "[1, 2, 3]" 7 None "\<lambda>k. 0", OF never] serial
  show ?thesis by simp
qed

text \<open>
  C7 as stated fails: under the serial executor a \<open>func\<close> that raises
  \<open>StopIteration\<close> on the second of three materials does so after the executor has been
  entered, and the call returns the list \<open>[15]\<close>; no exception reaches the caller.
\<close>

theorem stop_iteration_does_not_propagate:
  "DepletionDispatcher_deplete (\<lambda>k. 0) (DepletionDispatcher_init False)
     (stops_at 20) chain_one [10, 20, 30] [1, 2, 3] 7 None =
   (\<lparr>pool_class = PoolShim\<rparr>,
    [Enter PoolShim, FormMatrix 1 4, FuncCall 5 10 7, FormMatrix 2 4, FuncCall 6 20 7,
     Exit PoolShim],
    Inr [15]) \<and>
   raised_by (stops_at 20) chain_one None
     (FuncCall 6 20 7 :: (nat, nat, nat, nat, nat, string) event) = [StopIteration]"
  by (simp add: run_simps example_simps)

text \<open>
  C7, amended. When a call of the matrix builder or of \<open>func\<close> made during
  \<open>DepletionDispatcher.deplete\<close> raises an exception other than \<open>StopIteration\<close>, the
  method raises an exception of that call and returns no list; the raising call is the
  last event before the executor's exit, which is the last event of the call; and no
  call before it raised an exception other than \<open>StopIteration\<close>, so none was retried.
\<close>

theorem exception_propagates_after_release:
  fixes chain :: "('r, 'y, 'm, 'e) chain" and func :: "'m \<Rightarrow> 'v \<Rightarrow> 't \<Rightarrow> 'e exn + 'v"
  assumes "DepletionDispatcher_deplete first_done self func chain x rates dt matrix_func =
             (self', tr, result)"
    and "ev \<in> set tr" and "others (raised_by func chain matrix_func ev) \<noteq> []"
  shows "\<exists>e pre. result = Inl (Raised e) \<and>
           e \<in> set (raised_by func chain matrix_func ev) \<and>
           tr = Enter (pool_class self) # pre @ [ev, Exit (pool_class self)] \<and>
           (\<forall>ev'\<in>set pre. others (raised_by func chain matrix_func ev') = [])"
proof (cases rule: deplete_cases [of chain x first_done self func rates dt matrix_func])
  case mismatch
  with assms(1,2) show ?thesis by auto
next
  case (run fys)
  let ?W = "with_pool first_done (pool_class self) func chain matrix_func dt ((rates, fys), x)"
  from run(2) assms(1) have "?W = (tr, result)" by auto
  then have W: "tr = fst ?W" "result = snd ?W" by simp_all
  from assms(3) have ne: "propagating func chain matrix_func ev \<noteq> []"
    using others_raised_by_propagating by blast
  show ?thesis
  proof (cases result)
    case (Inr res)
    with W have "snd ?W = Inr res" by simp
    from with_pool_quiet [OF this] assms(2) ne W(1) show ?thesis by simp
  next
    case (Inl err)
    with W have "snd ?W = Inl err" by simp
    from with_pool_failure [OF this] obtain e pre ev0 where
      f: "err = Raised e" "fst ?W = Enter (pool_class self) # pre @ [ev0, Exit (pool_class self)]"
        "e \<in> set (propagating func chain matrix_func ev0)"
        "\<forall>ev'\<in>set pre. propagating func chain matrix_func ev' = []"
      by blast
    from assms(2) W(1) f(2) have
      "ev = Enter (pool_class self) \<or> ev \<in> set pre \<or> ev = ev0 \<or> ev = Exit (pool_class self)"
      by auto
    with ne f(4) have ev: "ev = ev0" by auto
    from f(3) have e: "e \<in> set (raised_by func chain matrix_func ev0)"
      by (rule propagating_raised_by)
    from f(4) have pre: "\<forall>ev'\<in>set pre. others (raised_by func chain matrix_func ev') = []"
      using others_raised_by_propagating by blast
    from f(1,2) Inl W(1) ev e pre show ?thesis by auto
  qed
qed

text \<open>
  The instance of a \<open>func\<close> that raises on the second of three materials, under the
  serial executor.
\<close>

theorem exception_propagates_after_release_witness:
  "DepletionDispatcher_deplete (\<lambda>k. 0) (DepletionDispatcher_init False)
     (fails_at 20) chain_one [10, 20, 30] [1, 2, 3] 7 None =
   (\<lparr>pool_class = PoolShim\<rparr>,
    [Enter PoolShim, FormMatrix 1 4, FuncCall 5 10 7, FormMatrix 2 4, FuncCall 6 20 7,
     Exit PoolShim],
    Inl (Raised (Other ''boom''))) \<and>
   FuncCall 6 20 7 \<in> set [Enter PoolShim, FormMatrix 1 4, FuncCall 5 10 7, FormMatrix 2 4,
     FuncCall 6 20 7, Exit PoolShim] \<and>
   others (raised_by (fails_at 20) chain_one None (FuncCall 6 20 7)) = [Other ''boom'']"
proof -
  have run: "DepletionDispatcher_deplete (\<lambda>k. 0) (DepletionDispatcher_init False)
     (fails_at 20) chain_one [10, 20, 30] [1, 2, 3] 7 None =
   (\<lparr>pool_class = PoolShim\<rparr>,
    [Enter PoolShim, FormMatrix 1 4, FuncCall 5 10 7, FormMatrix 2 4, FuncCall 6 20 7,
     Exit PoolShim],
    Inl (Raised (Other ''boom'')))"
    by (simp add: run_simps example_simps)
  have ev: "FuncCall 6 20 7 \<in> set [Enter PoolShim, FormMatrix 1 4, FuncCall 5 10 7,
     FormMatrix 2 4, FuncCall 6 20 7, Exit PoolShim]" by simp
  have r: "others (raised_by (fails_at 20) chain_one None (FuncCall 6 20 7)) \<noteq> []"
    by (simp add: fails_at_def)
  from exception_propagates_after_release [OF run ev r] run show ?thesis
    by (simp add: fails_at_def)
qed

text \<open>
  C8 as stated fails in "once per material": with a one-entry table, one atom vector
  and reaction rates for two materials, the call returns normally and \<open>matrix_func\<close> has
  been called twice.
\<close>

theorem builder_called_twice_for_one_material:
  "builder_calls (fst (snd (DepletionDispatcher_deplete (\<lambda>k. 0) (DepletionDispatcher_init False)
     add_matrix chain_one [10] [1, 2] 7 (Some fixed_matrix)))) =
     [MatrixFunc chain_one 1 4, MatrixFunc chain_one 2 4] \<and>
   snd (snd (DepletionDispatcher_deplete (\<lambda>k. 0) (DepletionDispatcher_init False)
     add_matrix chain_one [10] [1, 2] 7 (Some fixed_matrix))) = Inr [110] \<and>
   length (builder_calls (fst (snd (DepletionDispatcher_deplete (\<lambda>k. 0)
     (DepletionDispatcher_init False) add_matrix chain_one [10] [1, 2] 7 (Some fixed_matrix)))))
     \<noteq> length [10 :: nat]"
  by (simp add: run_simps example_simps)

text \<open>
  C8, amended. The \<open>k\<close>-th call of the matrix builder is
  \<open>chain.form_matrix(rates[k], yield_k)\<close> when \<open>matrix_func\<close> is \<open>None\<close> and
  \<open>matrix_func(chain, rates[k], yield_k)\<close> otherwise, and the matrix handed to \<open>func\<close>
  with \<open>x[i]\<close> is the value of the \<open>i\<close>-th call. When the table has one or \<open>len(x)\<close>
  entries and no call of the builder or of \<open>func\<close> raises, the builder has been called
  \<open>min(len(rates), len(x) + 1)\<close> times with a one-entry table and
  \<open>min(len(rates), len(x))\<close> times otherwise: once per material when \<open>rates\<close> has
  \<open>len(x)\<close> elements.
\<close>

theorem builder_called_by_position:
  assumes "DepletionDispatcher_deplete first_done self func chain x rates dt matrix_func =
             (self', tr, result)"
  shows "(\<forall>k<length (builder_calls tr). k < length rates \<and>
            builder_calls tr ! k =
              (case matrix_func of
                 None \<Rightarrow> FormMatrix (rates ! k) (yield_for chain k)
               | Some mf \<Rightarrow> MatrixFunc chain (rates ! k) (yield_for chain k))) \<and>
         ((length (fission_yields chain) = 1 \<or> length (fission_yields chain) = length x) \<and>
          (\<forall>ev\<in>set tr. raised_by func chain matrix_func ev = []) \<longrightarrow>
            length (builder_calls tr) =
              (if length (fission_yields chain) = 1 then min (length rates) (Suc (length x))
               else min (length rates) (length x))) \<and>
         (\<forall>res. result = Inr res \<longrightarrow>
            (\<forall>i<length res.
               \<exists>m. (case matrix_func of
                       None \<Rightarrow> form_matrix chain (rates ! i) (yield_for chain i)
                     | Some mf \<Rightarrow> mf chain (rates ! i) (yield_for chain i)) = Inr m \<and>
                   func m (x ! i) dt = Inr (res ! i)))"
proof -
  from deplete_builder_calls(1,2) [OF assms]
  have "\<forall>k<length (builder_calls tr). k < length rates \<and>
            builder_calls tr ! k =
              (case matrix_func of
                 None \<Rightarrow> FormMatrix (rates ! k) (yield_for chain k)
               | Some mf \<Rightarrow> MatrixFunc chain (rates ! k) (yield_for chain k))"
    by (simp add: builder_call_def)
  moreover have "length (builder_calls tr) =
              (if length (fission_yields chain) = 1 then min (length rates) (Suc (length x))
               else min (length rates) (length x))"
    if "length (fission_yields chain) = 1 \<or> length (fission_yields chain) = length x"
      and "\<forall>ev\<in>set tr. raised_by func chain matrix_func ev = []"
    using deplete_unraised(2) [OF assms that] .
  moreover have "\<exists>m. (case matrix_func of
                       None \<Rightarrow> form_matrix chain (rates ! i) (yield_for chain i)
                     | Some mf \<Rightarrow> mf chain (rates ! i) (yield_for chain i)) = Inr m \<and>
                   func m (x ! i) dt = Inr (res ! i)"
    if "result = Inr res" "i < length res" for res i
    using deplete_result(2) [of first_done self func chain x rates dt matrix_func self' tr res i]
      assms that by (simp add: builder_def)
  ultimately show ?thesis by blast
qed

text \<open>
  The instance of three materials and a three-entry table, with a \<open>matrix_func\<close>.
\<close>

theorem builder_called_by_position_witness:
  "DepletionDispatcher_deplete (\<lambda>k. 0) (DepletionDispatcher_init True)
     add_matrix chain_three [10, 20, 30] [1, 2, 3] 7 (Some fixed_matrix) =
   (\<lparr>pool_class = Pool\<rparr>,
    [Enter Pool, MatrixFunc chain_three 1 4, MatrixFunc chain_three 2 5,
     MatrixFunc chain_three 3 6, Dispatch [(100, 10, 7), (100, 20, 7), (100, 30, 7)], Exit Pool],
    Inr [110, 120, 130]) \<and>
   [MatrixFunc chain_three 1 4, MatrixFunc chain_three 2 5, MatrixFunc chain_three 3 6] ! 2 =
      (MatrixFunc chain_three ([1, 2, 3] ! 2) (yield_for chain_three 2)
        :: (nat, nat, nat, nat, nat, string) event) \<and>
   (3 :: nat) = min (length [1, 2, 3 :: nat]) (length [10, 20, 30 :: nat])"
proof -
  have run: "DepletionDispatcher_deplete (\<lambda>k. 0) (DepletionDispatcher_init True)
     add_matrix chain_three [10, 20, 30] [1, 2, 3] 7 (Some fixed_matrix) =
   (\<lparr>pool_class = Pool\<rparr>,
    [Enter Pool, MatrixFunc chain_three 1 4, MatrixFunc chain_three 2 5,
     MatrixFunc chain_three 3 6, Dispatch [(100, 10, 7), (100, 20, 7), (100, 30, 7)], Exit Pool],
    Inr [110, 120, 130])"
    by (simp add: run_simps example_simps)
  have fy: "fission_yields chain_three = [4, 5, 6]" by (simp add: chain_three_def)
  from builder_called_by_position [OF run] run fy show ?thesis
    by (simp add: builder_calls_def yield_for_def)
qed

text \<open>
  C9. \<open>DepletionDispatcher.deplete\<close> leaves the dispatcher as it found it: after one
  call and after a second call on the same dispatcher, \<open>_pool_class\<close> is still the class
  chosen at construction, and every executor entered by either call is of that class.
\<close>

theorem deplete_leaves_the_dispatcher_unchanged:
  assumes "self = DepletionDispatcher_init use_multiprocessing"
    and "DepletionDispatcher_deplete first_done self func chain x rates dt matrix_func =
           (self', tr, result)"
    and "DepletionDispatcher_deplete first_done2 self' func2 chain2 x2 rates2 dt2 matrix_func2 =
           (self'', tr2, result2)"
  shows "self' = self \<and> self'' = self \<and>
         pool_class self'' = (if use_multiprocessing then Pool else PoolShim) \<and>
         set (pools_entered tr) \<subseteq> {if use_multiprocessing then Pool else PoolShim} \<and>
         set (pools_entered tr2) \<subseteq> {if use_multiprocessing then Pool else PoolShim}"
proof -
  from deplete_mismatch_or_run [OF assms(2)] have 1: "self' = self"
    "set (pools_entered tr) \<subseteq> {pool_class self}" by (simp_all split: if_splits)
  from deplete_mismatch_or_run [OF assms(3)] 1(1) have 2: "self'' = self"
    "set (pools_entered tr2) \<subseteq> {pool_class self}" by (simp_all split: if_splits)
  from assms(1) have "pool_class self = (if use_multiprocessing then Pool else PoolShim)"
    by (simp add: DepletionDispatcher_init_def)
  with 1 2 show ?thesis by simp
qed

text \<open>
  The instance of a serial dispatcher, a call that returns and a call that raises
  \<open>ValueError\<close>.
\<close>

theorem deplete_leaves_the_dispatcher_unchanged_witness:
  "DepletionDispatcher_init False = DepletionDispatcher_init False \<and>
   DepletionDispatcher_deplete (\<lambda>k. 0) (DepletionDispatcher_init False)
     add_matrix chain_one [10] [1] 7 None =
   (\<lparr>pool_class = PoolShim\<rparr>,
    [Enter PoolShim, FormMatrix 1 4, FuncCall 5 10 7, Exit PoolShim], Inr [15]) \<and>
   DepletionDispatcher_deplete (\<lambda>k. 0) \<lparr>pool_class = PoolShim\<rparr>
     add_matrix chain_three [10] [1] 7 None =
   (\<lparr>pool_class = PoolShim\<rparr>, [],
    Inl (ValueError (mismatch_message 3 1))) \<and>
   pool_class \<lparr>pool_class = PoolShim\<rparr> = PoolShim \<and>
   pools_entered ([Enter PoolShim, FormMatrix 1 4, FuncCall 5 10 7, Exit PoolShim]
     :: (nat, nat, nat, nat, nat, string) event list) = [PoolShim]"
proof -
  have run1: "DepletionDispatcher_deplete (\<lambda>k. 0) (DepletionDispatcher_init False)
     add_matrix chain_one [10] [1] 7 None =
   (\<lparr>pool_class = PoolShim\<rparr>,
    [Enter PoolShim, FormMatrix 1 4, FuncCall 5 10 7, Exit PoolShim], Inr [15])"
    by (simp add: run_simps example_simps)
  have run2: "DepletionDispatcher_deplete (\<lambda>k. 0) \<lparr>pool_class = PoolShim\<rparr>
     add_matrix chain_three [10] [1] 7 None =
   (\<lparr>pool_class = PoolShim\<rparr>, [], Inl (ValueError (mismatch_message 3 1)))"
    by (simp add: run_simps example_simps numeral_3_eq_3)
  from deplete_leaves_the_dispatcher_unchanged [OF refl run1 run2] run1 run2
  show ?thesis by (simp add: DepletionDispatcher_init_def)
qed

text \<open>
  C10 as stated fails in the length: with three reaction rates and three atom vectors,
  a \<open>form_matrix\<close> that raises \<open>StopIteration\<close> on the second material ends the inputs
  there, and the call returns a list of one element, not of \<open>min(3, 3)\<close>.
\<close>

theorem returned_list_shorter_than_rates_and_x:
  "DepletionDispatcher_deplete (\<lambda>k. 0) (DepletionDispatcher_init False)
     add_matrix chain_stops [10, 20, 30] [1, 2, 3] 7 None =
   (\<lparr>pool_class = PoolShim\<rparr>,
    [Enter PoolShim, FormMatrix 1 4, FuncCall 5 10 7, FormMatrix 2 4, Exit PoolShim],
    Inr [15]) \<and>
   length [15 :: nat] \<noteq> min (length [1, 2, 3 :: nat]) (length [10, 20, 30 :: nat])"
  by (simp add: run_simps example_simps)

text \<open>
  C10, amended. \<open>DepletionDispatcher.deplete\<close> raises its \<open>ValueError\<close> exactly when the
  fission-yield table has neither one nor \<open>len(x)\<close> entries, whatever the length of
  \<open>rates\<close>. A list it returns has at most \<open>min(len(rates), len(x))\<close> elements; and when
  the table has one or \<open>len(x)\<close> entries and no call of the builder or of \<open>func\<close>
  raises, it returns a list of exactly \<open>min(len(rates), len(x))\<close> elements, so that with
  fewer reaction rates than atom vectors the trailing atom vectors are dropped.
\<close>

theorem only_the_yield_table_length_is_checked:
  assumes "DepletionDispatcher_deplete first_done self func chain x rates dt matrix_func =
           (self', tr, result)"
  shows "((\<exists>msg. result = Inl (ValueError msg)) \<longleftrightarrow>
            length (fission_yields chain) \<noteq> 1 \<and> length (fission_yields chain) \<noteq> length x) \<and>
         (\<forall>res. result = Inr res \<longrightarrow> length res \<le> min (length rates) (length x)) \<and>
         ((length (fission_yields chain) = 1 \<or> length (fission_yields chain) = length x) \<and>
          (\<forall>ev\<in>set tr. raised_by func chain matrix_func ev = []) \<longrightarrow>
            (\<exists>res. result = Inr res \<and> length res = min (length rates) (length x)))"
proof -
  have "length res \<le> min (length rates) (length x)" if "result = Inr res" for res
    using deplete_result(1) [of first_done self func chain x rates dt matrix_func self' tr res]
      assms that by simp
  moreover have "(\<exists>msg. result = Inl (ValueError msg)) \<longleftrightarrow>
            length (fission_yields chain) \<noteq> 1 \<and> length (fission_yields chain) \<noteq> length x"
  proof (cases rule: deplete_cases [of chain x first_done self func rates dt matrix_func])
    case mismatch
    with assms show ?thesis by auto
  next
    case (run fys)
    with assms have "result = snd (with_pool first_done (pool_class self) func chain matrix_func
      dt ((rates, fys), x))" by auto
    then have "\<not> (\<exists>msg. result = Inl (ValueError msg))"
      using with_pool_failure [of first_done "pool_class self" func chain matrix_func dt rates
          fys x] by (cases result) auto
    with run(1) show ?thesis by auto
  qed
  moreover have "\<exists>res. result = Inr res \<and> length res = min (length rates) (length x)"
    if "length (fission_yields chain) = 1 \<or> length (fission_yields chain) = length x"
      and "\<forall>ev\<in>set tr. raised_by func chain matrix_func ev = []"
    using deplete_unraised(1) [OF assms that] .
  ultimately show ?thesis by blast
qed

text \<open>
  The instance of three atom vectors and reaction rates for one material: no call
  raises, and the call returns a list of one element.
\<close>

theorem only_the_yield_table_length_is_checked_witness:
  "DepletionDispatcher_deplete (\<lambda>k. 0) (DepletionDispatcher_init True)
     add_matrix chain_three [10, 20, 30] [1] 7 None =
   (\<lparr>pool_class = Pool\<rparr>, [Enter Pool, FormMatrix 1 4, Dispatch [(5, 10, 7)], Exit Pool],
    Inr [15]) \<and>
   length [15 :: nat] = min (length [1 :: nat]) (length [10, 20, 30 :: nat]) \<and>
   \<not> (length (fission_yields chain_three) \<noteq> 1 \<and>
        length (fission_yields chain_three) \<noteq> length [10, 20, 30 :: nat])"
proof -
  have run: "DepletionDispatcher_deplete (\<lambda>k. 0) (DepletionDispatcher_init True)
     add_matrix chain_three [10, 20, 30] [1] 7 None =
   (\<lparr>pool_class = Pool\<rparr>, [Enter Pool, FormMatrix 1 4, Dispatch [(5, 10, 7)], Exit Pool],
    Inr [15])"
    by (simp add: run_simps example_simps)
  from only_the_yield_table_length_is_checked [OF run] run show ?thesis by simp
qed

end
